theory Spec2Isabelle
  imports Main
begin

section \<open>The page: elements, attributes, selectors\<close>

text \<open>
  The lightbox of \<^verbatim>\<open>static/js/gd-lightbox.js\<close> reads the page through
  \<^verbatim>\<open>querySelectorAll\<close>, \<^verbatim>\<open>querySelector\<close> and \<^verbatim>\<open>getAttribute\<close>. An element is a
  node of a tree; \<open>nid\<close> stands for the identity of the DOM object (the script keeps
  references to anchors and hangs listeners on them), \<open>tag\<close> is the lower-case local
  name, \<open>attrs\<close> the attributes in markup order.
\<close>

datatype node = Element (nid: nat) (tag: string) (attrs: "(string \<times> string) list") (children: "node list")

text \<open>\<^verbatim>\<open>e.getAttribute(name)\<close>: the value, or \<^verbatim>\<open>null\<close> (here \<open>None\<close>) when absent.\<close>

definition getAttribute :: "node \<Rightarrow> string \<Rightarrow> string option" where
  "getAttribute e name = map_of (attrs e) name"

text \<open>Document order is the preorder of the tree.\<close>

fun subtree :: "node \<Rightarrow> node list" where
  "subtree (Element i t as cs) = Element i t as cs # concat (map subtree cs)"

definition descendants :: "node \<Rightarrow> node list" where
  "descendants e = concat (map subtree (children e))"

text \<open>
  The path a bubbling event takes inside the tree \<open>e\<close>: the target (the element whose
  identity is \<open>n\<close>) first, then its parent, up to \<open>e\<close>; empty when the target is not in
  the tree.
\<close>

fun bubble_path :: "nat \<Rightarrow> node \<Rightarrow> node list" where
  "bubble_path n (Element i t as cs) =
     (if i = n then [Element i t as cs]
      else (case find (\<lambda>p. p \<noteq> []) (map (bubble_path n) cs) of
              None \<Rightarrow> []
            | Some p \<Rightarrow> p @ [Element i t as cs]))"

text \<open>
  The two selectors of the script, \<^verbatim>\<open>a[data-lightbox]\<close> and \<^verbatim>\<open>img\<close>: a type selector
  with an optional attribute-presence test.
\<close>

datatype selector = Sel (sel_tag: string) (sel_attr: "string option")

definition matches :: "selector \<Rightarrow> node \<Rightarrow> bool" where
  "matches sel e =
     (tag e = sel_tag sel \<and>
      (case sel_attr sel of None \<Rightarrow> True | Some k \<Rightarrow> getAttribute e k \<noteq> None))"

text \<open>
  \<^verbatim>\<open>function qsa(sel, root = document)\<close>: all matching elements of the document, its
  root element included, in document order. \<^verbatim>\<open>a.querySelector(sel)\<close>: the first
  matching element below \<open>a\<close>, or \<^verbatim>\<open>null\<close>.
\<close>

definition qsa :: "selector \<Rightarrow> node \<Rightarrow> node list" where
  "qsa sel doc = filter (matches sel) (subtree doc)"

definition querySelector :: "selector \<Rightarrow> node \<Rightarrow> node option" where
  "querySelector sel e = find (matches sel) (descendants e)"

definition a_data_lightbox :: selector where
  "a_data_lightbox = Sel ''a'' (Some ''data-lightbox'')"

definition img_sel :: selector where
  "img_sel = Sel ''img'' None"

section \<open>JavaScript values\<close>

text \<open>
  \<^verbatim>\<open>x || y\<close> on values that are a string, \<^verbatim>\<open>null\<close> or \<^verbatim>\<open>undefined\<close>: \<open>x\<close> when it
  is a non-empty string, else \<open>y\<close>. \<open>or_str\<close> is the last link of a chain, whose
  right operand is a string literal.
\<close>

definition js_or :: "string option \<Rightarrow> string option \<Rightarrow> string option" where
  "js_or x y = (case x of None \<Rightarrow> y | Some s \<Rightarrow> if s = [] then y else Some s)"

definition or_str :: "string option \<Rightarrow> string \<Rightarrow> string" where
  "or_str x d = (case x of None \<Rightarrow> d | Some s \<Rightarrow> if s = [] then d else s)"

text \<open>\<^verbatim>\<open>Array.prototype.findIndex\<close>: the first index whose element passes, else -1.\<close>

fun findIndex_from :: "('a \<Rightarrow> bool) \<Rightarrow> int \<Rightarrow> 'a list \<Rightarrow> int" where
  "findIndex_from P k [] = - 1"
| "findIndex_from P k (x # xs) = (if P x then k else findIndex_from P (k + 1) xs)"

definition findIndex :: "('a \<Rightarrow> bool) \<Rightarrow> 'a list \<Rightarrow> int" where
  "findIndex P xs = findIndex_from P 0 xs"

text \<open>Reading a property of \<^verbatim>\<open>null\<close> raises a TypeError.\<close>

datatype error = TypeError

definition bind_err :: "error + 'a \<Rightarrow> ('a \<Rightarrow> error + 'b) \<Rightarrow> error + 'b" where
  "bind_err r f = (case r of Inl e \<Rightarrow> Inl e | Inr x \<Rightarrow> f x)"

section \<open>The state of the lightbox\<close>

text \<open>One entry of a group: \<^verbatim>\<open>{ link: a, src, title }\<close>.\<close>

record item =
  link :: nat
  src :: "string option"
  title :: string

text \<open>
  The overlay built by \<^verbatim>\<open>buildOverlay\<close>, as far as the script reads or writes it:
  the class \<^verbatim>\<open>is-open\<close> of the overlay, \<^verbatim>\<open>src\<close> and \<^verbatim>\<open>alt\<close> of the image, the text of
  the caption, and the inline \<^verbatim>\<open>style.display\<close> of the three buttons.
\<close>

datatype img_source = NoSrc | SrcSet "string option"

record overlay_dom =
  is_open :: bool
  img_src :: img_source
  img_alt :: string
  caption_text :: string
  prev_display :: string
  next_display :: string
  close_display :: string

text \<open>
  \<^verbatim>\<open>STATE\<close> and the two pieces of the page the script writes besides the overlay:
  the class \<^verbatim>\<open>gd-lightbox-lock\<close> of the root element (\<open>lock\<close>) and the click
  listeners added to anchors (\<open>listeners\<close>: the anchor, and the \<^verbatim>\<open>group\<close> and
  \<^verbatim>\<open>src\<close> its closure captured, in the order they were added). The handles
  \<^verbatim>\<open>overlay\<close>, \<^verbatim>\<open>img\<close>, \<^verbatim>\<open>caption\<close>, \<^verbatim>\<open>prevBtn\<close>, \<^verbatim>\<open>nextBtn\<close>, \<^verbatim>\<open>closeBtn\<close> are set
  together, so one optional field stands for the six.
\<close>

record state =
  groups :: "string \<rightharpoonup> item list"
  currentGroup :: "string option"
  currentIndex :: int
  overlay :: "overlay_dom option"
  lock :: bool
  listeners :: "(nat \<times> string \<times> string option) list"

definition init :: state where
  "init = \<lparr> groups = Map.empty, currentGroup = None, currentIndex = - 1,
            overlay = None, lock = False, listeners = [] \<rparr>"

section \<open>The functions of the script\<close>

definition buildOverlay :: "state \<Rightarrow> state" where
  "buildOverlay st =
     (if overlay st \<noteq> None then st
      else st \<lparr> overlay := Some \<lparr> is_open = False, img_src = NoSrc, img_alt = [],
                  caption_text = [], prev_display = [], next_display = [],
                  close_display = [] \<rparr> \<rparr>)"

text \<open>What the callback of \<^verbatim>\<open>forEach\<close> in \<^verbatim>\<open>prepareGroups\<close> reads from an anchor.\<close>

definition group_of :: "node \<Rightarrow> string" where
  "group_of a = or_str (getAttribute a ''data-lightbox'') ''_default''"

definition img_alt_of :: "node \<Rightarrow> string option" where
  "img_alt_of a =
     (case querySelector img_sel a of None \<Rightarrow> None | Some i \<Rightarrow> getAttribute i ''alt'')"

definition title_of :: "node \<Rightarrow> string" where
  "title_of a =
     or_str (js_or (js_or (getAttribute a ''data-title'') (getAttribute a ''title''))
               (img_alt_of a)) []"

definition item_of :: "node \<Rightarrow> item" where
  "item_of a = \<lparr> link = nid a, src = getAttribute a ''href'', title = title_of a \<rparr>"

text \<open>
  The callback: create the group's array when the name is new, push the item, add the
  click listener. \<^verbatim>\<open>get\<close> after \<^verbatim>\<open>set\<close> always finds the array, so the \<open>None\<close>
  branch of the push is never taken.
\<close>

definition index_anchor :: "node \<Rightarrow> state \<Rightarrow> state" where
  "index_anchor a st =
     (let group = group_of a;
          gs = (if groups st group = None then (groups st)(group \<mapsto> []) else groups st);
          gs' = (case gs group of None \<Rightarrow> gs | Some items \<Rightarrow> gs(group \<mapsto> items @ [item_of a]))
      in st \<lparr> groups := gs',
               listeners := listeners st @ [(nid a, group, getAttribute a ''href'')] \<rparr>)"

definition prepareGroups :: "node \<Rightarrow> state \<Rightarrow> state" where
  "prepareGroups doc st =
     fold index_anchor (qsa a_data_lightbox doc) (st \<lparr> groups := Map.empty \<rparr>)"

definition items_of :: "state \<Rightarrow> string option \<Rightarrow> item list" where
  "items_of st g =
     (case g of None \<Rightarrow> []
      | Some name \<Rightarrow> (case groups st name of None \<Rightarrow> [] | Some xs \<Rightarrow> xs))"

text \<open>
  \<^verbatim>\<open>showIndex(i)\<close>. The early return comes before any read of a handle; with items
  and no overlay the write to \<^verbatim>\<open>STATE.img.src\<close> raises.
\<close>

definition showIndex :: "int \<Rightarrow> state \<Rightarrow> error + state" where
  "showIndex i st =
     (let items = items_of st (currentGroup st) in
      if items = [] then Inr st
      else
        let n = int (length items);
            i1 = (if i < 0 then n - 1 else i);
            i2 = (if i1 \<ge> n then 0 else i1);
            it = items ! nat i2;
            multi = (n > 1)
        in case overlay st of
             None \<Rightarrow> Inl TypeError
           | Some ov \<Rightarrow>
               Inr (st \<lparr> currentIndex := i2,
                         overlay := Some (ov \<lparr> img_src := SrcSet (src it),
                                               img_alt := or_str (Some (title it)) [],
                                               caption_text := or_str (Some (title it)) [],
                                               prev_display := (if multi then [] else ''none''),
                                               next_display := (if multi then [] else ''none'') \<rparr>) \<rparr>))"

definition open_lightbox :: "string \<Rightarrow> string option \<Rightarrow> state \<Rightarrow> error + state" where
  "open_lightbox grp s st =
     (let st1 = buildOverlay st;
          st2 = st1 \<lparr> currentGroup := Some grp \<rparr>;
          arr = items_of st2 (Some grp);
          idx = findIndex (\<lambda>it. src it = s) arr
      in case overlay st2 of
           None \<Rightarrow> Inl TypeError
         | Some ov \<Rightarrow>
             showIndex (if idx < 0 then 0 else idx)
               (st2 \<lparr> overlay := Some (ov \<lparr> is_open := True \<rparr>), lock := True \<rparr>))"

definition hide :: "state \<Rightarrow> error + state" where
  "hide st =
     (case overlay st of
        None \<Rightarrow> Inl TypeError
      | Some ov \<Rightarrow>
          Inr (st \<lparr> overlay := Some (ov \<lparr> is_open := False \<rparr>), lock := False,
                    currentIndex := - 1 \<rparr>))"

section \<open>The listeners\<close>

text \<open>
  \<^verbatim>\<open>buildOverlay\<close> adds four listeners, once: a click listener on the overlay, one on
  each of the two navigation buttons, and a \<^verbatim>\<open>keydown\<close> listener on the document.
  Before the overlay is built none of them exists, and the event changes nothing.
\<close>

datatype click_target = Backdrop | CloseBtn | Stage

definition overlay_click :: "click_target \<Rightarrow> state \<Rightarrow> error + state" where
  "overlay_click target st =
     (case overlay st of
        None \<Rightarrow> Inr st
      | Some ov \<Rightarrow> if target = Backdrop \<or> target = CloseBtn then hide st else Inr st)"

definition prev_click :: "state \<Rightarrow> error + state" where
  "prev_click st =
     (case overlay st of None \<Rightarrow> Inr st | Some ov \<Rightarrow> showIndex (currentIndex st - 1) st)"

definition next_click :: "state \<Rightarrow> error + state" where
  "next_click st =
     (case overlay st of None \<Rightarrow> Inr st | Some ov \<Rightarrow> showIndex (currentIndex st + 1) st)"

text \<open>The three tests on \<^verbatim>\<open>e.key\<close> run one after the other, each on the current state.\<close>

definition keydown :: "string \<Rightarrow> state \<Rightarrow> error + state" where
  "keydown key st =
     (case overlay st of
        None \<Rightarrow> Inr st
      | Some ov \<Rightarrow>
          if \<not> is_open ov then Inr st
          else
            bind_err (if key = ''Escape'' then hide st else Inr st) (\<lambda>st1.
            bind_err (if key = ''ArrowLeft'' then showIndex (currentIndex st1 - 1) st1 else Inr st1) (\<lambda>st2.
            if key = ''ArrowRight'' then showIndex (currentIndex st2 + 1) st2 else Inr st2)))"

text \<open>
  The click listener that \<^verbatim>\<open>prepareGroups\<close> adds to an anchor, with the \<^verbatim>\<open>group\<close>
  and \<^verbatim>\<open>src\<close> it captured. Besides the new state it reports the calls of \<open>open\<close> it
  made, as the list of their arguments: none when it returns at its first line, one
  otherwise. The list is an observation of the run; the script keeps no such record.

  The listener never stops the propagation of the event, and every
  \<^verbatim>\<open>addEventListener\<close> of the script passes a new function, so none replaces an earlier
  one. A click on an element of the page therefore runs the listeners of the target,
  in the order they were added, then those of its parent, and so on up to the root: a
  click on a thumbnail reaches the anchor around it, and a click on an anchor inside
  another anchor reaches both. The target is an element of the page (a click on an
  element outside it finds no path here). The browser goes on to the next listener when one
  raises; here a run stops at the first error, which is the same thing since no
  listener ever raises (\<open>run_listeners_total\<close>).
\<close>

record mouse_event =
  button :: int
  metaKey :: bool
  ctrlKey :: bool
  shiftKey :: bool
  altKey :: bool

type_synonym call = "string \<times> string option"

definition anchor_listener :: "string \<Rightarrow> string option \<Rightarrow> mouse_event \<Rightarrow> state \<Rightarrow> error + state \<times> call list" where
  "anchor_listener grp s e st =
     (if button e \<noteq> 0 \<or> metaKey e \<or> ctrlKey e \<or> shiftKey e \<or> altKey e then Inr (st, [])
      else bind_err (open_lightbox grp s st) (\<lambda>st'. Inr (st', [(grp, s)])))"

fun run_listeners :: "(nat \<times> string \<times> string option) list \<Rightarrow> mouse_event \<Rightarrow> state \<Rightarrow> error + state \<times> call list" where
  "run_listeners [] e st = Inr (st, [])"
| "run_listeners ((n, grp, s) # ls) e st =
     bind_err (anchor_listener grp s e st) (\<lambda>(st1, calls1).
     bind_err (run_listeners ls e st1) (\<lambda>(st2, calls2). Inr (st2, calls1 @ calls2)))"

definition click :: "node \<Rightarrow> nat \<Rightarrow> mouse_event \<Rightarrow> state \<Rightarrow> error + state \<times> call list" where
  "click doc target e st =
     run_listeners
       (concat (map (\<lambda>b. filter (\<lambda>l. fst l = nid b) (listeners st)) (bubble_path target doc)))
       e st"

text \<open>
  The events of a page's life. \<^verbatim>\<open>DOMContentLoaded\<close> and a call of
  \<^verbatim>\<open>GDLightbox.refresh\<close> both run \<^verbatim>\<open>prepareGroups\<close> on the markup of that moment; a
  click comes with the markup of its moment and the identity of its target.
\<close>

datatype event =
    DOMContentLoaded node
  | Refresh node
  | Click node nat mouse_event
  | OverlayClick click_target
  | PrevClick
  | NextClick
  | KeyDown string

fun step :: "event \<Rightarrow> state \<Rightarrow> error + state" where
  "step (DOMContentLoaded doc) st = Inr (prepareGroups doc st)"
| "step (Refresh doc) st = Inr (prepareGroups doc st)"
| "step (Click doc target e) st = bind_err (click doc target e st) (\<lambda>(st', calls). Inr st')"
| "step (OverlayClick target) st = overlay_click target st"
| "step PrevClick st = prev_click st"
| "step NextClick st = next_click st"
| "step (KeyDown key) st = keydown key st"

fun run :: "event list \<Rightarrow> state \<Rightarrow> error + state" where
  "run [] st = Inr st"
| "run (ev # evs) st = bind_err (step ev st) (run evs)"

text \<open>
  The events during which no listener calls \<open>open\<close> whatever the state: all but the
  clicks on the page, and of these the ones every anchor listener ignores (another
  button, or a modifier key held).
\<close>

fun quiet :: "event \<Rightarrow> bool" where
  "quiet (Click doc target e) =
     (button e \<noteq> 0 \<or> metaKey e \<or> ctrlKey e \<or> shiftKey e \<or> altKey e)"
| "quiet ev = True"

section \<open>The caption rule in the words of the specification\<close>

text \<open>
  Two readings of "resolved in priority order from the candidates": the first candidate
  that is present, whatever its value, and the first candidate that is present and not
  the empty string. Both end with the empty string when no candidate qualifies.
\<close>

fun first_present :: "string option list \<Rightarrow> string" where
  "first_present [] = []"
| "first_present (None # cs) = first_present cs"
| "first_present (Some s # cs) = s"

fun first_nonempty :: "string option list \<Rightarrow> string" where
  "first_nonempty [] = []"
| "first_nonempty (None # cs) = first_nonempty cs"
| "first_nonempty (Some s # cs) = (if s = [] then first_nonempty cs else s)"

section \<open>Example pages\<close>

text \<open>An unmodified click of the primary button.\<close>

definition primary :: mouse_event where
  "primary = \<lparr> button = 0, metaKey = False, ctrlKey = False, shiftKey = False, altKey = False \<rparr>"

text \<open>
  Three anchors of the group \<open>vacation\<close>, and a fourth whose \<^verbatim>\<open>data-lightbox\<close> is
  empty, which has no \<^verbatim>\<open>href\<close> and holds an image with an \<^verbatim>\<open>alt\<close>.
\<close>

definition anchor_a :: node where
  "anchor_a = Element 2 ''a'' [(''data-lightbox'', ''vacation''), (''href'', ''/a.jpg'')] []"

definition anchor_b :: node where
  "anchor_b = Element 3 ''a'' [(''data-lightbox'', ''vacation''), (''href'', ''/b.jpg''),
                               (''title'', ''Beach'')] []"

definition anchor_c :: node where
  "anchor_c = Element 4 ''a'' [(''data-lightbox'', ''vacation''), (''href'', ''/c.jpg'')] []"

definition anchor_d :: node where
  "anchor_d = Element 5 ''a'' [(''data-lightbox'', [])] [Element 6 ''img'' [(''alt'', ''pic'')] []]"

definition vacation_page :: node where
  "vacation_page =
     Element 0 ''html'' [] [Element 1 ''body'' [] [anchor_a, anchor_b, anchor_c, anchor_d]]"

definition vacation_items :: "item list" where
  "vacation_items =
     [\<lparr> link = 2, src = Some ''/a.jpg'', title = [] \<rparr>,
      \<lparr> link = 3, src = Some ''/b.jpg'', title = ''Beach'' \<rparr>,
      \<lparr> link = 4, src = Some ''/c.jpg'', title = [] \<rparr>]"

definition default_items :: "item list" where
  "default_items = [\<lparr> link = 5, src = None, title = ''pic'' \<rparr>]"

definition vacation_groups :: "string \<rightharpoonup> item list" where
  "vacation_groups = [''vacation'' \<mapsto> vacation_items, ''_default'' \<mapsto> default_items]"

definition vacation_listeners :: "(nat \<times> string \<times> string option) list" where
  "vacation_listeners =
     [(2, ''vacation'', Some ''/a.jpg''), (3, ''vacation'', Some ''/b.jpg''),
      (4, ''vacation'', Some ''/c.jpg''), (5, ''_default'', None)]"

text \<open>The page after loading, after a click on the second anchor, and after Escape.\<close>

definition vacation_loaded :: state where
  "vacation_loaded =
     \<lparr> groups = vacation_groups, currentGroup = None, currentIndex = - 1, overlay = None,
       lock = False, listeners = vacation_listeners \<rparr>"

definition vacation_open :: state where
  "vacation_open =
     \<lparr> groups = vacation_groups, currentGroup = Some ''vacation'', currentIndex = 1,
       overlay = Some \<lparr> is_open = True, img_src = SrcSet (Some ''/b.jpg''), img_alt = ''Beach'',
                        caption_text = ''Beach'', prev_display = [], next_display = [],
                        close_display = [] \<rparr>,
       lock = True, listeners = vacation_listeners \<rparr>"

definition vacation_closed :: state where
  "vacation_closed =
     \<lparr> groups = vacation_groups, currentGroup = Some ''vacation'', currentIndex = - 1,
       overlay = Some \<lparr> is_open = False, img_src = SrcSet (Some ''/b.jpg''), img_alt = ''Beach'',
                        caption_text = ''Beach'', prev_display = [], next_display = [],
                        close_display = [] \<rparr>,
       lock = False, listeners = vacation_listeners \<rparr>"

text \<open>The page after a click on the fourth anchor, alone in the default group.\<close>

definition default_overlay :: overlay_dom where
  "default_overlay =
     \<lparr> is_open = True, img_src = SrcSet None, img_alt = ''pic'', caption_text = ''pic'',
       prev_display = ''none'', next_display = ''none'', close_display = [] \<rparr>"

definition default_open :: state where
  "default_open =
     \<lparr> groups = vacation_groups, currentGroup = Some ''_default'', currentIndex = 0,
       overlay = Some default_overlay, lock = True, listeners = vacation_listeners \<rparr>"

text \<open>
  A page whose only marked anchor loses its \<^verbatim>\<open>data-lightbox\<close> attribute before the
  next refresh: the listener of the first indexing stays on the anchor.
\<close>

definition marked_page :: node where
  "marked_page =
     Element 0 ''html'' []
       [Element 1 ''body'' [] [Element 2 ''a'' [(''data-lightbox'', ''g''), (''href'', ''/a.jpg'')] []]]"

definition unmarked_page :: node where
  "unmarked_page =
     Element 0 ''html'' [] [Element 1 ''body'' [] [Element 2 ''a'' [(''href'', ''/a.jpg'')] []]]"

text \<open>The state after loading \<open>marked_page\<close> and refreshing on \<open>unmarked_page\<close>.\<close>

definition stale_listener :: state where
  "stale_listener =
     \<lparr> groups = Map.empty, currentGroup = None, currentIndex = - 1, overlay = None,
       lock = False, listeners = [(2, ''g'', Some ''/a.jpg'')] \<rparr>"

text \<open>
  An anchor inside another, both marked; in \<open>twin_page\<close> the two also share group and
  \<^verbatim>\<open>href\<close>.
\<close>

definition inner_anchor :: node where
  "inner_anchor = Element 3 ''a'' [(''data-lightbox'', ''inner''), (''href'', ''/i.jpg'')] []"

definition nested_page :: node where
  "nested_page =
     Element 0 ''html'' []
       [Element 1 ''body'' []
          [Element 2 ''a'' [(''data-lightbox'', ''outer''), (''href'', ''/o.jpg'')]
             [inner_anchor]]]"

definition twin_page :: node where
  "twin_page =
     Element 0 ''html'' []
       [Element 1 ''body'' []
          [Element 2 ''a'' [(''data-lightbox'', ''g''), (''href'', ''/a.jpg'')]
             [Element 3 ''a'' [(''data-lightbox'', ''g''), (''href'', ''/a.jpg'')] []]]]"

text \<open>
  \<open>vacation_closed\<close> after a click on the previous button, which the script does not
  guard: the overlay stays closed while the index and the image change.
\<close>

definition closed_after_prev :: state where
  "closed_after_prev =
     \<lparr> groups = vacation_groups, currentGroup = Some ''vacation'', currentIndex = 2,
       overlay = Some \<lparr> is_open = False, img_src = SrcSet (Some ''/c.jpg''), img_alt = [],
                        caption_text = [], prev_display = [], next_display = [],
                        close_display = [] \<rparr>,
       lock = False, listeners = vacation_listeners \<rparr>"

text \<open>An anchor whose \<^verbatim>\<open>data-title\<close> is present and empty.\<close>

definition anchor_empty_title :: node where
  "anchor_empty_title =
     Element 2 ''a'' [(''data-lightbox'', ''g''), (''href'', ''/a.jpg''), (''data-title'', []),
                      (''title'', ''Sunset'')] []"

section \<open>An invariant\<close>

text \<open>The close button, when it exists, has no inline display.\<close>

definition close_untouched :: "state \<Rightarrow> bool" where
  "close_untouched st = (case overlay st of None \<Rightarrow> True | Some ov \<Rightarrow> close_display ov = [])"

section \<open>What \<open>prepareGroups\<close> builds\<close>

lemma groups_index_anchor:
  "groups (index_anchor a st) g =
     (if group_of a = g
      then Some ((case groups st g of None \<Rightarrow> [] | Some ys \<Rightarrow> ys) @ [item_of a])
      else groups st g)"
  by (auto simp: index_anchor_def Let_def split: option.splits)

lemma groups_fold_index_anchor:
  "groups (fold index_anchor xs st) g =
     (let new = filter (\<lambda>a. group_of a = g) xs in
      if new = [] then groups st g
      else Some ((case groups st g of None \<Rightarrow> [] | Some ys \<Rightarrow> ys) @ map item_of new))"
proof (induction xs arbitrary: st)
  case Nil
  show ?case by simp
next
  case (Cons a xs)
  show ?case
    by (simp add: Cons.IH groups_index_anchor Let_def split: option.splits)
qed

lemma groups_prepareGroups:
  "groups (prepareGroups doc st) g =
     (let new = filter (\<lambda>a. group_of a = g) (qsa a_data_lightbox doc) in
      if new = [] then None else Some (map item_of new))"
  by (simp add: prepareGroups_def groups_fold_index_anchor Let_def)

lemma listeners_index_anchor:
  "listeners (index_anchor a st) = listeners st @ [(nid a, group_of a, getAttribute a ''href'')]"
  by (simp add: index_anchor_def Let_def)

lemma listeners_fold_index_anchor:
  "listeners (fold index_anchor xs st) =
     listeners st @ map (\<lambda>a. (nid a, group_of a, getAttribute a ''href'')) xs"
  by (induction xs arbitrary: st) (simp_all add: listeners_index_anchor)

lemma listeners_prepareGroups:
  "listeners (prepareGroups doc st) =
     listeners st @
     map (\<lambda>a. (nid a, group_of a, getAttribute a ''href'')) (qsa a_data_lightbox doc)"
  by (simp add: prepareGroups_def listeners_fold_index_anchor)

text \<open>Indexing leaves the session and the overlay alone.\<close>

lemma frame_index_anchor:
  "currentGroup (index_anchor a st) = currentGroup st"
  "currentIndex (index_anchor a st) = currentIndex st"
  "overlay (index_anchor a st) = overlay st"
  "lock (index_anchor a st) = lock st"
  by (simp_all add: index_anchor_def Let_def)

lemma frame_fold_index_anchor:
  "currentGroup (fold index_anchor xs st) = currentGroup st \<and>
   currentIndex (fold index_anchor xs st) = currentIndex st \<and>
   overlay (fold index_anchor xs st) = overlay st \<and>
   lock (fold index_anchor xs st) = lock st"
  by (induction xs arbitrary: st) (simp_all add: frame_index_anchor)

lemma frame_prepareGroups:
  "currentGroup (prepareGroups doc st) = currentGroup st"
  "currentIndex (prepareGroups doc st) = currentIndex st"
  "overlay (prepareGroups doc st) = overlay st"
  "lock (prepareGroups doc st) = lock st"
  by (simp_all add: prepareGroups_def frame_fold_index_anchor)

text \<open>
  The selector \<^verbatim>\<open>a[data-lightbox]\<close> asks for the attribute, so an indexed anchor always
  carries it, and no array of the table is empty.
\<close>

lemma eligible_anchor:
  "a \<in> set (qsa a_data_lightbox doc) \<longleftrightarrow>
     a \<in> set (subtree doc) \<and> tag a = ''a'' \<and> getAttribute a ''data-lightbox'' \<noteq> None"
  by (auto simp: qsa_def matches_def a_data_lightbox_def)

lemma groups_nonempty: "groups (prepareGroups doc st) g = Some items \<Longrightarrow> items \<noteq> []"
  by (auto simp: groups_prepareGroups Let_def split: if_splits)

section \<open>\<open>findIndex\<close>\<close>

lemma findIndex_from_none:
  "\<forall>x\<in>set xs. \<not> P x \<Longrightarrow> findIndex_from P k xs = - 1"
  by (induction xs arbitrary: k) simp_all

lemma findIndex_from_first:
  "\<exists>x\<in>set xs. P x \<Longrightarrow>
     \<exists>i<length xs. findIndex_from P k xs = k + int i \<and> P (xs ! i) \<and> (\<forall>j<i. \<not> P (xs ! j))"
proof (induction xs arbitrary: k)
  case Nil
  then show ?case by simp
next
  case (Cons x xs)
  show ?case
  proof (cases "P x")
    case True
    then have "findIndex_from P k (x # xs) = k + int 0 \<and> P ((x # xs) ! 0) \<and>
        (\<forall>j<0. \<not> P ((x # xs) ! j))"
      by simp
    then show ?thesis by blast
  next
    case False
    with Cons.prems have "\<exists>y\<in>set xs. P y" by auto
    from Cons.IH [OF this, of "k + 1"] obtain i where i:
      "i < length xs" "findIndex_from P (k + 1) xs = k + 1 + int i" "P (xs ! i)"
      "\<forall>j<i. \<not> P (xs ! j)"
      by blast
    have "\<forall>j<Suc i. \<not> P ((x # xs) ! j)"
      using False i(4) by (auto simp: less_Suc_eq_0_disj)
    with False i have "Suc i < length (x # xs) \<and>
        findIndex_from P k (x # xs) = k + int (Suc i) \<and>
        P ((x # xs) ! Suc i) \<and> (\<forall>j<Suc i. \<not> P ((x # xs) ! j))"
      by simp
    then show ?thesis by blast
  qed
qed

section \<open>\<open>buildOverlay\<close>, \<open>showIndex\<close>, \<open>open\<close>\<close>

lemma overlay_buildOverlay: "\<exists>ov. overlay (buildOverlay st) = Some ov"
  by (cases "overlay st") (simp_all add: buildOverlay_def)

lemma frame_buildOverlay:
  "groups (buildOverlay st) = groups st"
  "currentGroup (buildOverlay st) = currentGroup st"
  "currentIndex (buildOverlay st) = currentIndex st"
  "lock (buildOverlay st) = lock st"
  "listeners (buildOverlay st) = listeners st"
  by (simp_all add: buildOverlay_def)

lemma showIndex_empty:
  "items_of st (currentGroup st) = [] \<Longrightarrow> showIndex i st = Inr st"
  by (simp add: showIndex_def)

lemma showIndex_shown:
  assumes "items_of st (currentGroup st) = items" and "items \<noteq> []" and "overlay st = Some ov"
  shows "showIndex i st =
     (let n = int (length items);
          i1 = (if i < 0 then n - 1 else i);
          i2 = (if i1 \<ge> n then 0 else i1);
          it = items ! nat i2
      in Inr (st \<lparr> currentIndex := i2,
                   overlay := Some (ov \<lparr> img_src := SrcSet (src it), img_alt := title it,
                                         caption_text := title it,
                                         prev_display := (if n > 1 then [] else ''none''),
                                         next_display := (if n > 1 then [] else ''none'') \<rparr>) \<rparr>))"
  using assms by (simp add: showIndex_def Let_def or_str_def)

text \<open>The state in which \<open>open\<close> calls \<open>showIndex\<close>, and the index it asks for.\<close>

lemma open_lightbox_unfold:
  assumes "overlay (buildOverlay st) = Some ov"
  shows "open_lightbox g s st =
     showIndex
       (let idx = findIndex (\<lambda>it. src it = s) (items_of st (Some g))
        in if idx < 0 then 0 else idx)
       (buildOverlay st \<lparr> currentGroup := Some g, overlay := Some (ov \<lparr> is_open := True \<rparr>),
                          lock := True \<rparr>)"
  using assms by (simp add: open_lightbox_def Let_def items_of_def frame_buildOverlay)

lemma open_lightbox_index:
  assumes "groups st g = Some items" and "items \<noteq> []"
  shows "\<exists>st'. open_lightbox g s st = Inr st' \<and>
           currentIndex st' =
             (let idx = findIndex (\<lambda>it. src it = s) items in if idx < 0 then 0 else idx)"
proof -
  obtain ov where ov: "overlay (buildOverlay st) = Some ov"
    using overlay_buildOverlay by blast
  let ?st2 = "buildOverlay st \<lparr> currentGroup := Some g,
                 overlay := Some (ov \<lparr> is_open := True \<rparr>), lock := True \<rparr>"
  let ?idx = "findIndex (\<lambda>it. src it = s) items"
  let ?i = "if ?idx < 0 then 0 else ?idx"
  have items: "items_of ?st2 (currentGroup ?st2) = items"
    using assms(1) by (simp add: items_of_def frame_buildOverlay)
  have range: "?idx < int (length items)"
  proof (cases "\<exists>it\<in>set items. src it = s")
    case True
    from findIndex_from_first [of items "\<lambda>it. src it = s" 0, OF True]
    show ?thesis by (auto simp: findIndex_def)
  next
    case False
    then have "?idx = - 1" by (simp add: findIndex_def findIndex_from_none)
    then show ?thesis by simp
  qed
  have "open_lightbox g s st = showIndex ?i ?st2"
    using open_lightbox_unfold [OF ov, of g s] assms(1) by (simp add: items_of_def Let_def)
  also have "\<dots> = Inr (?st2 \<lparr> currentIndex := ?i,
       overlay := Some (ov \<lparr> is_open := True,
          img_src := SrcSet (src (items ! nat ?i)),
          img_alt := title (items ! nat ?i),
          caption_text := title (items ! nat ?i),
          prev_display := (if int (length items) > 1 then [] else ''none''),
          next_display := (if int (length items) > 1 then [] else ''none'') \<rparr>) \<rparr>)"
    using range assms(2)
    by (subst showIndex_shown [OF items assms(2), of "ov \<lparr> is_open := True \<rparr>"])
       (auto simp: Let_def)
  finally show ?thesis by (simp add: Let_def)
qed

section \<open>No listener raises\<close>

lemma showIndex_total:
  assumes "overlay st = Some ov"
  shows "\<exists>st' ov'. showIndex i st = Inr st' \<and> overlay st' = Some ov'"
proof (cases "items_of st (currentGroup st) = []")
  case True
  with assms show ?thesis by (simp add: showIndex_empty)
next
  case False
  show ?thesis
    by (simp add: showIndex_shown [OF refl False assms] Let_def)
qed

lemma hide_total:
  "overlay st = Some ov \<Longrightarrow> \<exists>st' ov'. hide st = Inr st' \<and> overlay st' = Some ov'"
  by (simp add: hide_def)

lemma open_lightbox_total: "\<exists>st'. open_lightbox g s st = Inr st'"
proof -
  obtain ov where ov: "overlay (buildOverlay st) = Some ov"
    using overlay_buildOverlay by blast
  let ?st2 = "buildOverlay st \<lparr> currentGroup := Some g,
                 overlay := Some (ov \<lparr> is_open := True \<rparr>), lock := True \<rparr>"
  have "overlay ?st2 = Some (ov \<lparr> is_open := True \<rparr>)" by simp
  from showIndex_total [OF this] show ?thesis
    unfolding open_lightbox_unfold [OF ov] by blast
qed

lemma anchor_listener_total: "\<exists>st' calls. anchor_listener g s e st = Inr (st', calls)"
  using open_lightbox_total [of g s st] by (auto simp: anchor_listener_def bind_err_def)

lemma run_listeners_total: "\<exists>st' calls. run_listeners ls e st = Inr (st', calls)"
proof (induction ls arbitrary: st)
  case Nil
  show ?case by simp
next
  case (Cons l ls)
  obtain n g s where l: "l = (n, g, s)" by (cases l) auto
  obtain st1 calls1 where one: "anchor_listener g s e st = Inr (st1, calls1)"
    using anchor_listener_total by blast
  obtain st2 calls2 where "run_listeners ls e st1 = Inr (st2, calls2)"
    using Cons.IH by blast
  with one l show ?case by (simp add: bind_err_def)
qed

lemma keydown_total: "\<exists>st'. keydown key st = Inr st'"
proof (cases "overlay st")
  case None
  then show ?thesis by (simp add: keydown_def)
next
  case (Some ov)
  obtain st1 ov1 where st1: "(if key = ''Escape'' then hide st else Inr st) = Inr st1"
      "overlay st1 = Some ov1"
    using hide_total [OF Some] Some by (cases "key = ''Escape''") auto
  obtain st2 ov2 where st2:
      "(if key = ''ArrowLeft'' then showIndex (currentIndex st1 - 1) st1 else Inr st1) = Inr st2"
      "overlay st2 = Some ov2"
    using showIndex_total [OF st1(2), of "currentIndex st1 - 1"] st1(2)
    by (cases "key = ''ArrowLeft''") auto
  obtain st3 where st3:
      "(if key = ''ArrowRight'' then showIndex (currentIndex st2 + 1) st2 else Inr st2) = Inr st3"
    using showIndex_total [OF st2(2), of "currentIndex st2 + 1"]
    by (cases "key = ''ArrowRight''") auto
  show ?thesis
    using Some st1(1) st2(1) st3 by (cases "is_open ov") (simp_all add: keydown_def bind_err_def)
qed

lemma step_total: "\<exists>st'. step ev st = Inr st'"
proof (cases ev)
  case (Click doc target e)
  obtain st' calls where "click doc target e st = Inr (st', calls)"
    unfolding click_def using run_listeners_total by blast
  with Click show ?thesis by (simp add: bind_err_def)
next
  case (OverlayClick target)
  then show ?thesis
    using hide_total [of st] by (cases "overlay st") (auto simp: overlay_click_def)
next
  case PrevClick
  then show ?thesis
    using showIndex_total [of st] by (cases "overlay st") (auto simp: prev_click_def)
next
  case NextClick
  then show ?thesis
    using showIndex_total [of st] by (cases "overlay st") (auto simp: next_click_def)
next
  case (KeyDown key)
  then show ?thesis by (simp add: keydown_total)
qed simp_all

lemma run_total: "\<exists>st'. run evs st = Inr st'"
proof (induction evs arbitrary: st)
  case Nil
  show ?case by simp
next
  case (Cons ev evs)
  obtain st1 where "step ev st = Inr st1" using step_total by blast
  with Cons.IH [of st1] show ?case by (simp add: bind_err_def)
qed

section \<open>Keys while the overlay is closed\<close>

lemma keydown_closed:
  "overlay st = Some ov \<Longrightarrow> \<not> is_open ov \<Longrightarrow> keydown key st = Inr st"
  by (simp add: keydown_def)

lemma run_keys_closed:
  "overlay st = Some ov \<Longrightarrow> \<not> is_open ov \<Longrightarrow> run (map KeyDown keys) st = Inr st"
  by (induction keys) (simp_all add: keydown_closed bind_err_def)

section \<open>Listeners over several refreshes\<close>

lemma concat_replicate_snoc: "concat (replicate k xs) @ xs = xs @ concat (replicate k xs)"
  by (induction k) simp_all

lemma listeners_funpow_prepareGroups:
  "listeners ((prepareGroups doc ^^ k) st) =
     listeners st @
     concat (replicate k (map (\<lambda>a. (nid a, group_of a, getAttribute a ''href''))
                            (qsa a_data_lightbox doc)))"
  by (induction k) (simp_all add: listeners_prepareGroups concat_replicate_snoc)

lemma filter_nid_distinct:
  "distinct (map nid xs) \<Longrightarrow> a \<in> set xs \<Longrightarrow>
     filter (\<lambda>l. fst l = nid a) (map (\<lambda>a. (nid a, f a)) xs) = [(nid a, f a)]"
proof (induction xs)
  case Nil
  then show ?case by simp
next
  case (Cons x xs)
  show ?case
  proof (cases "x = a")
    case True
    from Cons.prems(1) have "nid x \<notin> nid ` set xs" by simp
    with True have "\<forall>y\<in>set xs. nid y \<noteq> nid a" by (metis imageI)
    then have "filter (\<lambda>l. fst l = nid a) (map (\<lambda>a. (nid a, f a)) xs) = []"
      by (simp add: filter_empty_conv)
    with True show ?thesis by simp
  next
    case False
    with Cons.prems have "a \<in> set xs" "nid x \<noteq> nid a" by auto
    with Cons show ?thesis by simp
  qed
qed

lemma filter_concat_replicate:
  "filter P (concat (replicate k xs)) = concat (replicate k (filter P xs))"
  by (induction k) simp_all

lemma concat_replicate_single: "concat (replicate k [x]) = replicate k x"
  by (induction k) simp_all

lemma replicate_two: "replicate 2 x = [x, x]"
  by (simp add: numeral_2_eq_2)

text \<open>
  An unmodified primary click makes every listener it runs call \<open>open\<close> with the
  pair the listener captured; a click the listeners ignore calls nothing and changes
  nothing.
\<close>

lemma run_listeners_calls:
  assumes "button e = 0" "\<not> metaKey e" "\<not> ctrlKey e" "\<not> shiftKey e" "\<not> altKey e"
  shows "\<exists>st'. run_listeners ls e st = Inr (st', map snd ls)"
proof (induction ls arbitrary: st)
  case Nil
  show ?case by simp
next
  case (Cons l ls)
  obtain n g s where l: "l = (n, g, s)" by (cases l) auto
  obtain st1 where "open_lightbox g s st = Inr st1"
    using open_lightbox_total by blast
  then have one: "anchor_listener g s e st = Inr (st1, [(g, s)])"
    using assms by (simp add: anchor_listener_def bind_err_def)
  obtain st2 where "run_listeners ls e st1 = Inr (st2, map snd ls)"
    using Cons.IH by blast
  with one l show ?case by (simp add: bind_err_def)
qed

lemma run_listeners_ignored:
  assumes "button e \<noteq> 0 \<or> metaKey e \<or> ctrlKey e \<or> shiftKey e \<or> altKey e"
  shows "run_listeners ls e st = Inr (st, [])"
proof (induction ls)
  case Nil
  show ?case by simp
next
  case (Cons l ls)
  obtain n g s where l: "l = (n, g, s)" by (cases l) auto
  have "anchor_listener g s e st = Inr (st, [])"
    using assms by (auto simp: anchor_listener_def)
  with Cons.IH l show ?case by (simp add: bind_err_def)
qed

text \<open>The path of a click: inside the page, and starting at the target.\<close>

lemma bubble_path_subset: "set (bubble_path n e) \<subseteq> set (subtree e)"
proof (induction n e rule: bubble_path.induct)
  case (1 n i t as cs)
  show ?case
  proof (cases "i = n")
    case True
    then show ?thesis by simp
  next
    case False
    show ?thesis
    proof (cases "find (\<lambda>p. p \<noteq> []) (map (bubble_path n) cs)")
      case None
      with False show ?thesis by simp
    next
      case (Some p)
      then have "p \<in> set (map (bubble_path n) cs)"
        by (auto simp: find_Some_iff)
      then obtain c where c: "c \<in> set cs" "p = bubble_path n c" by auto
      from "1.IH" [OF False c(1)] c(2) have "set p \<subseteq> set (subtree c)" by simp
      with c(1) have "set p \<subseteq> set (concat (map subtree cs))" by auto
      with False Some show ?thesis by auto
    qed
  qed
qed

lemma bubble_path_target: "bubble_path n e = b # bs \<Longrightarrow> nid b = n"
proof (induction n e arbitrary: b bs rule: bubble_path.induct)
  case (1 n i t as cs)
  show ?case
  proof (cases "i = n")
    case True
    with "1.prems" show ?thesis by auto
  next
    case False
    show ?thesis
    proof (cases "find (\<lambda>p. p \<noteq> []) (map (bubble_path n) cs)")
      case None
      with False "1.prems" show ?thesis by simp
    next
      case (Some p)
      then have "p \<in> set (map (bubble_path n) cs)" "p \<noteq> []"
        by (auto simp: find_Some_iff)
      then obtain c where c: "c \<in> set cs" "p = bubble_path n c" by auto
      from \<open>p \<noteq> []\<close> obtain b' bs' where p: "p = b' # bs'" by (cases p) auto
      with False Some "1.prems" have "b' = b" by simp
      with "1.IH" [OF False c(1), of b bs'] c(2) p show ?thesis by simp
    qed
  qed
qed

lemma bubble_path_found: "n \<in> nid ` set (subtree e) \<Longrightarrow> bubble_path n e \<noteq> []"
proof (induction n e rule: bubble_path.induct)
  case (1 n i t as cs)
  show ?case
  proof (cases "i = n")
    case True
    then show ?thesis by simp
  next
    case False
    with "1.prems" obtain c where c: "c \<in> set cs" "n \<in> nid ` set (subtree c)" by auto
    from "1.IH" [OF False c] have "bubble_path n c \<noteq> []" .
    with c(1) have "find (\<lambda>p. p \<noteq> []) (map (bubble_path n) cs) \<noteq> None"
      by (auto simp: find_None_iff)
    with False show ?thesis by auto
  qed
qed

lemma bubble_path_of_element:
  assumes "a \<in> set (subtree doc)" and "distinct (map nid (subtree doc))"
  shows "\<exists>ancs. bubble_path (nid a) doc = a # ancs"
proof -
  from assms(1) have "bubble_path (nid a) doc \<noteq> []"
    by (intro bubble_path_found) auto
  then obtain b bs where path: "bubble_path (nid a) doc = b # bs"
    by (cases "bubble_path (nid a) doc") auto
  then have "nid b = nid a" by (rule bubble_path_target)
  moreover have "b \<in> set (subtree doc)"
    using bubble_path_subset [of "nid a" doc] path by auto
  moreover have "inj_on nid (set (subtree doc))"
    using assms(2) by (simp add: distinct_map)
  ultimately have "b = a" using assms(1) by (auto dest: inj_onD)
  with path show ?thesis by simp
qed

text \<open>The listeners an element of the page carries after \<open>k\<close> refreshes.\<close>

lemma listeners_on_element:
  assumes "distinct (map nid xs)" and "b \<in> set xs"
  shows "filter (\<lambda>l. fst l = nid b) (map (\<lambda>a. (nid a, f a)) (filter P xs)) =
           (if P b then [(nid b, f b)] else [])"
proof (cases "P b")
  case True
  have "distinct (map nid (filter P xs))"
    using assms(1) by (rule distinct_map_filter)
  moreover have "b \<in> set (filter P xs)" using True assms(2) by simp
  ultimately show ?thesis using True by (simp add: filter_nid_distinct)
next
  case False
  have inj: "inj_on nid (set xs)" using assms(1) by (simp add: distinct_map)
  have "nid y \<noteq> nid b" if "y \<in> set (filter P xs)" for y
  proof
    assume "nid y = nid b"
    with inj that assms(2) have "y = b" by (auto dest: inj_onD)
    with that False show False by simp
  qed
  then have "filter (\<lambda>l. fst l = nid b) (map (\<lambda>a. (nid a, f a)) (filter P xs)) = []"
    by (auto simp: filter_empty_conv)
  with False show ?thesis by simp
qed

lemma listeners_after_refreshes:
  assumes "distinct (map nid (subtree doc))" and "b \<in> set (subtree doc)"
    and "\<forall>l\<in>set (listeners st). fst l \<noteq> nid b"
  shows "filter (\<lambda>l. fst l = nid b) (listeners ((prepareGroups doc ^^ k) st)) =
           (if matches a_data_lightbox b
            then replicate k (nid b, group_of b, getAttribute b ''href'') else [])"
proof -
  have old: "filter (\<lambda>l. fst l = nid b) (listeners st) = []"
    using assms(3) by (simp add: filter_empty_conv)
  have new: "filter (\<lambda>l. fst l = nid b)
       (map (\<lambda>a. (nid a, group_of a, getAttribute a ''href'')) (qsa a_data_lightbox doc)) =
       (if matches a_data_lightbox b then [(nid b, group_of b, getAttribute b ''href'')] else [])"
    unfolding qsa_def by (rule listeners_on_element [OF assms(1,2)])
  show ?thesis
    by (simp add: listeners_funpow_prepareGroups old filter_concat_replicate new
        concat_replicate_single)
qed

lemma path_calls:
  assumes "distinct (map nid (subtree doc))" and "set bs \<subseteq> set (subtree doc)"
    and "\<forall>l\<in>set (listeners st). fst l \<notin> nid ` set bs"
  shows "map snd (concat (map (\<lambda>b. filter (\<lambda>l. fst l = nid b)
                                     (listeners ((prepareGroups doc ^^ k) st))) bs)) =
         concat (map (\<lambda>b. replicate k (group_of b, getAttribute b ''href''))
                   (filter (matches a_data_lightbox) bs))"
  using assms(2,3)
proof (induction bs)
  case Nil
  show ?case by simp
next
  case (Cons b bs)
  from Cons.prems have b: "b \<in> set (subtree doc)" "\<forall>l\<in>set (listeners st). fst l \<noteq> nid b"
    by auto
  from Cons.prems have "set bs \<subseteq> set (subtree doc)" "\<forall>l\<in>set (listeners st). fst l \<notin> nid ` set bs"
    by auto
  from Cons.IH [OF this] show ?case
    by (simp add: listeners_after_refreshes [OF assms(1) b])
qed

text \<open>
  The calls of \<open>open\<close> that one unmodified primary click makes after \<open>k\<close> refreshes,
  whatever its target: for each marked anchor on the way up, innermost first, \<open>k\<close>
  calls with that anchor's group and source.
\<close>

lemma click_calls:
  assumes "distinct (map nid (subtree doc))"
    and "\<forall>l\<in>set (listeners st). fst l \<notin> nid ` set (bubble_path target doc)"
    and "button e = 0" "\<not> metaKey e" "\<not> ctrlKey e" "\<not> shiftKey e" "\<not> altKey e"
  shows "\<exists>st'. click doc target e ((prepareGroups doc ^^ k) st) =
           Inr (st', concat (map (\<lambda>b. replicate k (group_of b, getAttribute b ''href''))
                              (filter (matches a_data_lightbox) (bubble_path target doc))))"
proof -
  let ?st = "(prepareGroups doc ^^ k) st"
  let ?ls = "concat (map (\<lambda>b. filter (\<lambda>l. fst l = nid b) (listeners ?st)) (bubble_path target doc))"
  obtain st' where "run_listeners ?ls e ?st = Inr (st', map snd ?ls)"
    using run_listeners_calls [OF assms(3-7)] by blast
  then have "click doc target e ?st = Inr (st', map snd ?ls)"
    by (simp add: click_def)
  then show ?thesis
    unfolding path_calls [OF assms(1) bubble_path_subset assms(2), of k] by blast
qed

section \<open>A closed overlay stays closed\<close>

text \<open>
  \<open>showIndex\<close> never touches the class \<^verbatim>\<open>is-open\<close>, and no event but a click that
  reaches \<open>open\<close> sets it: a closed overlay stays closed through refreshes, clicks
  on the overlay and its buttons, key presses and clicks the anchor listeners ignore.
\<close>

lemma showIndex_keeps_is_open:
  assumes "overlay st = Some ov"
  shows "\<exists>st' ov'. showIndex i st = Inr st' \<and> overlay st' = Some ov' \<and> is_open ov' = is_open ov"
proof (cases "items_of st (currentGroup st) = []")
  case True
  with assms show ?thesis by (simp add: showIndex_empty)
next
  case False
  show ?thesis
    by (simp add: showIndex_shown [OF refl False assms] Let_def)
qed

lemma closed_step:
  assumes "overlay st = Some ov" and "\<not> is_open ov" and "quiet ev"
  shows "\<exists>st' ov'. step ev st = Inr st' \<and> overlay st' = Some ov' \<and> \<not> is_open ov'"
proof (cases ev)
  case (DOMContentLoaded doc)
  with assms show ?thesis by (simp add: frame_prepareGroups)
next
  case (Refresh doc)
  with assms show ?thesis by (simp add: frame_prepareGroups)
next
  case (Click doc target e)
  with assms(3) have "click doc target e st = Inr (st, [])"
    by (simp add: click_def run_listeners_ignored)
  with Click assms(1,2) show ?thesis by (simp add: bind_err_def)
next
  case (OverlayClick target)
  with assms(1,2) show ?thesis by (simp add: overlay_click_def hide_def)
next
  case PrevClick
  with assms(1,2) showIndex_keeps_is_open [OF assms(1), of "currentIndex st - 1"]
  show ?thesis by (auto simp: prev_click_def)
next
  case NextClick
  with assms(1,2) showIndex_keeps_is_open [OF assms(1), of "currentIndex st + 1"]
  show ?thesis by (auto simp: next_click_def)
next
  case (KeyDown key)
  with assms(1,2) show ?thesis by (simp add: keydown_closed)
qed

lemma closed_run:
  assumes "overlay st = Some ov" and "\<not> is_open ov" and "list_all quiet evs"
  shows "\<exists>st' ov'. run evs st = Inr st' \<and> overlay st' = Some ov' \<and> \<not> is_open ov'"
  using assms
proof (induction evs arbitrary: st ov)
  case Nil
  then show ?case by simp
next
  case (Cons ev evs)
  from Cons.prems have "quiet ev" "list_all quiet evs" by simp_all
  from closed_step [OF Cons.prems(1,2) \<open>quiet ev\<close>] obtain st1 ov1 where
    st1: "step ev st = Inr st1" "overlay st1 = Some ov1" "\<not> is_open ov1" by blast
  from Cons.IH [OF st1(2,3) \<open>list_all quiet evs\<close>] st1(1) show ?case
    by (simp add: bind_err_def)
qed

section \<open>The example pages, run\<close>

lemmas page_defs = vacation_page_def anchor_a_def anchor_b_def anchor_c_def anchor_d_def
  qsa_def a_data_lightbox_def matches_def getAttribute_def item_of_def title_of_def js_or_def
  or_str_def img_alt_of_def querySelector_def descendants_def img_sel_def group_of_def

lemmas script_defs = init_def bind_err_def prepareGroups_def index_anchor_def Let_def
  click_def anchor_listener_def primary_def open_lightbox_def buildOverlay_def items_of_def
  findIndex_def showIndex_def keydown_def hide_def prev_click_def next_click_def

lemmas example_defs = vacation_groups_def vacation_items_def default_items_def
  vacation_listeners_def vacation_loaded_def vacation_open_def vacation_closed_def
  default_open_def default_overlay_def closed_after_prev_def

lemma run_vacation_loaded: "run [DOMContentLoaded vacation_page] init = Inr vacation_loaded"
  by (simp add: script_defs page_defs example_defs)

lemma run_vacation_open: "run [Click vacation_page 3 primary] vacation_loaded = Inr vacation_open"
  by (simp add: script_defs page_defs example_defs)

lemma run_vacation_closed: "run [KeyDown ''Escape''] vacation_open = Inr vacation_closed"
  by (simp add: script_defs page_defs example_defs)

lemma run_default_open: "run [Click vacation_page 5 primary] vacation_loaded = Inr default_open"
  by (simp add: script_defs page_defs example_defs)

text \<open>A click on the image inside the fourth anchor reaches the anchor.\<close>

lemma run_thumbnail_click: "run [Click vacation_page 6 primary] vacation_loaded = Inr default_open"
  by (simp add: script_defs page_defs example_defs)

text \<open>
  A click on the inner anchor of \<open>nested_page\<close> calls \<open>open\<close> for the inner anchor,
  then for the outer one, whose image is the one left on display.
\<close>

lemma nested_click:
  "click nested_page 3 primary (prepareGroups nested_page init) =
     Inr (\<lparr> groups = [''outer'' \<mapsto> [\<lparr> link = 2, src = Some ''/o.jpg'', title = [] \<rparr>],
                     ''inner'' \<mapsto> [\<lparr> link = 3, src = Some ''/i.jpg'', title = [] \<rparr>]],
            currentGroup = Some ''outer'', currentIndex = 0,
            overlay = Some \<lparr> is_open = True, img_src = SrcSet (Some ''/o.jpg''), img_alt = [],
                             caption_text = [], prev_display = ''none'',
                             next_display = ''none'', close_display = [] \<rparr>,
            lock = True,
            listeners = [(2, ''outer'', Some ''/o.jpg''), (3, ''inner'', Some ''/i.jpg'')] \<rparr>,
          [(''inner'', Some ''/i.jpg''), (''outer'', Some ''/o.jpg'')])"
  by (simp add: script_defs qsa_def a_data_lightbox_def matches_def getAttribute_def
      group_of_def item_of_def title_of_def js_or_def or_str_def img_alt_of_def
      querySelector_def descendants_def img_sel_def nested_page_def inner_anchor_def)

text \<open>
  Scenario A of the specification: a click on the second anchor shows \<^verbatim>\<open>/b.jpg\<close> at
  index 1, the right arrow shows \<^verbatim>\<open>/c.jpg\<close>, and once more wraps to \<^verbatim>\<open>/a.jpg\<close>.
\<close>

lemma scenario_A:
  "run [KeyDown ''ArrowRight''] vacation_open =
     Inr (vacation_open \<lparr> currentIndex := 2,
            overlay := Some \<lparr> is_open = True, img_src = SrcSet (Some ''/c.jpg''), img_alt = [],
                              caption_text = [], prev_display = [], next_display = [],
                              close_display = [] \<rparr> \<rparr>)"
  "run [KeyDown ''ArrowRight'', KeyDown ''ArrowRight''] vacation_open =
     Inr (vacation_open \<lparr> currentIndex := 0,
            overlay := Some \<lparr> is_open = True, img_src = SrcSet (Some ''/a.jpg''), img_alt = [],
                              caption_text = [], prev_display = [], next_display = [],
                              close_display = [] \<rparr> \<rparr>)"
  by (simp_all add: script_defs page_defs example_defs)

lemma open_lightbox_is_open:
  assumes "open_lightbox g s st = Inr st'"
  shows "\<exists>ov. overlay st' = Some ov \<and> is_open ov"
proof -
  obtain ov where ov: "overlay (buildOverlay st) = Some ov"
    using overlay_buildOverlay by blast
  let ?st2 = "buildOverlay st \<lparr> currentGroup := Some g,
                 overlay := Some (ov \<lparr> is_open := True \<rparr>), lock := True \<rparr>"
  have built: "overlay ?st2 = Some (ov \<lparr> is_open := True \<rparr>)" by simp
  show ?thesis
  proof (cases "items_of ?st2 (currentGroup ?st2) = []")
    case True
    with assms show ?thesis
      unfolding open_lightbox_unfold [OF ov] by (auto simp: showIndex_empty)
  next
    case False
    from assms show ?thesis
      unfolding open_lightbox_unfold [OF ov] showIndex_shown [OF refl False built]
      by (auto simp: Let_def)
  qed
qed

section \<open>The close button\<close>

text \<open>
  No function of the script writes the inline display of the close button: from the
  fresh page on, whatever happens, it is the empty string that \<open>buildOverlay\<close> left.
\<close>

lemma close_untouched_showIndex:
  "showIndex i st = Inr st' \<Longrightarrow> close_untouched st \<Longrightarrow> close_untouched st'"
  by (auto simp: showIndex_def close_untouched_def Let_def split: if_splits option.splits)

lemma close_untouched_hide:
  "hide st = Inr st' \<Longrightarrow> close_untouched st \<Longrightarrow> close_untouched st'"
  by (auto simp: hide_def close_untouched_def split: option.splits)

lemma close_untouched_open:
  assumes "open_lightbox g s st = Inr st'" and "close_untouched st"
  shows "close_untouched st'"
proof -
  obtain ov where ov: "overlay (buildOverlay st) = Some ov"
    using overlay_buildOverlay by blast
  have "close_display ov = []"
    using ov assms(2) by (auto simp: buildOverlay_def close_untouched_def split: if_splits)
  then have "close_untouched (buildOverlay st \<lparr> currentGroup := Some g,
                 overlay := Some (ov \<lparr> is_open := True \<rparr>), lock := True \<rparr>)"
    by (simp add: close_untouched_def)
  with assms(1) show ?thesis
    unfolding open_lightbox_unfold [OF ov] by (rule close_untouched_showIndex)
qed

lemma close_untouched_run_listeners:
  "run_listeners ls e st = Inr (st', calls) \<Longrightarrow> close_untouched st \<Longrightarrow> close_untouched st'"
proof (induction ls arbitrary: st calls)
  case Nil
  then show ?case by simp
next
  case (Cons l ls)
  obtain n g s where l: "l = (n, g, s)" by (cases l) auto
  from Cons.prems(1) l obtain st1 calls1 calls2 where st1:
      "anchor_listener g s e st = Inr (st1, calls1)"
      "run_listeners ls e st1 = Inr (st', calls2)"
    by (auto simp: bind_err_def split: sum.splits)
  from st1(1) Cons.prems(2) have "close_untouched st1"
    by (auto simp: anchor_listener_def bind_err_def close_untouched_open
        split: if_splits sum.splits)
  with st1(2) show ?case by (rule Cons.IH)
qed

lemma close_untouched_keydown:
  assumes "keydown key st = Inr st'" and "close_untouched st"
  shows "close_untouched st'"
proof (cases "overlay st")
  case None
  with assms show ?thesis by (simp add: keydown_def)
next
  case (Some ov)
  show ?thesis
  proof (cases "is_open ov")
    case False
    with Some assms show ?thesis by (simp add: keydown_def)
  next
    case True
    with Some assms(1) obtain st1 st2 where steps:
        "(if key = ''Escape'' then hide st else Inr st) = Inr st1"
        "(if key = ''ArrowLeft'' then showIndex (currentIndex st1 - 1) st1 else Inr st1) = Inr st2"
        "(if key = ''ArrowRight'' then showIndex (currentIndex st2 + 1) st2 else Inr st2) = Inr st'"
      by (auto simp: keydown_def bind_err_def split: sum.splits)
    from steps(1) assms(2) have "close_untouched st1"
      by (auto simp: close_untouched_hide split: if_splits)
    with steps(2) have "close_untouched st2"
      by (auto simp: close_untouched_showIndex split: if_splits)
    with steps(3) show ?thesis
      by (auto simp: close_untouched_showIndex split: if_splits)
  qed
qed

lemma close_untouched_step:
  assumes "step ev st = Inr st'" and "close_untouched st"
  shows "close_untouched st'"
proof (cases ev)
  case (DOMContentLoaded doc)
  with assms show ?thesis by (auto simp: close_untouched_def frame_prepareGroups)
next
  case (Refresh doc)
  with assms show ?thesis by (auto simp: close_untouched_def frame_prepareGroups)
next
  case (Click doc target e)
  with assms show ?thesis
    by (auto simp: click_def bind_err_def dest: close_untouched_run_listeners
        split: sum.splits)
next
  case (OverlayClick target)
  with assms show ?thesis
    by (auto simp: overlay_click_def dest: close_untouched_hide split: option.splits if_splits)
next
  case PrevClick
  with assms show ?thesis
    by (auto simp: prev_click_def dest: close_untouched_showIndex split: option.splits)
next
  case NextClick
  with assms show ?thesis
    by (auto simp: next_click_def dest: close_untouched_showIndex split: option.splits)
next
  case (KeyDown key)
  with assms show ?thesis by (auto dest: close_untouched_keydown)
qed

lemma close_untouched_run:
  "run evs st = Inr st' \<Longrightarrow> close_untouched st \<Longrightarrow> close_untouched st'"
proof (induction evs arbitrary: st)
  case Nil
  then show ?case by simp
next
  case (Cons ev evs)
  from Cons.prems(1) obtain st1 where st1: "step ev st = Inr st1" "run evs st1 = Inr st'"
    by (auto simp: bind_err_def split: sum.splits)
  from st1(1) Cons.prems(2) have "close_untouched st1" by (rule close_untouched_step)
  with st1(2) show ?case by (rule Cons.IH)
qed

lemma close_button_display:
  "run evs init = Inr st \<Longrightarrow> overlay st = Some ov \<Longrightarrow> close_display ov = []"
  using close_untouched_run [of evs init st] by (simp add: close_untouched_def init_def)

section \<open>The claims\<close>

text \<open>
  C1. Grouping. After \<open>prepareGroups\<close> the table holds, under each name, the items of
  exactly the eligible anchors (those \<^verbatim>\<open>a[data-lightbox]\<close> selects) whose
  \<^verbatim>\<open>data-lightbox\<close> value is that name, an absent or empty value counting as
  \<open>_default\<close>, in document order; a name no anchor declares has no entry. The selector
  asks for the attribute (\<open>eligible_anchor\<close>), so among eligible anchors only the empty
  value reaches the default.
\<close>

theorem grouping_by_declared_name:
  "groups (prepareGroups doc st) g =
     (let members =
            filter (\<lambda>a. (case getAttribute a ''data-lightbox'' of
                            None \<Rightarrow> ''_default''
                          | Some v \<Rightarrow> if v = [] then ''_default'' else v) = g)
                   (qsa a_data_lightbox doc)
      in if members = [] then None else Some (map item_of members))"
  by (simp add: groups_prepareGroups group_of_def or_str_def)

theorem grouping_by_declared_name_witness:
  "groups (prepareGroups vacation_page init) ''vacation'' = Some vacation_items \<and>
   groups (prepareGroups vacation_page init) ''_default'' = Some default_items \<and>
   groups (prepareGroups vacation_page init) ''other'' = None"
  using grouping_by_declared_name [of vacation_page init "''vacation''"]
    grouping_by_declared_name [of vacation_page init "''_default''"]
    grouping_by_declared_name [of vacation_page init "''other''"]
  by (simp add: page_defs example_defs)

text \<open>
  C2. Index resolution. When the group \<open>g\<close> is in the table with its items (never an
  empty array, \<open>groups_nonempty\<close>), \<open>open(g, s)\<close> returns and leaves the current index
  at the first position whose item has source \<open>s\<close>, and at 0 when no item has it.
\<close>

theorem open_index_resolution:
  assumes "groups st g = Some items" and "items \<noteq> []"
  shows "\<exists>st'. open_lightbox g s st = Inr st' \<and>
           (if \<exists>it\<in>set items. src it = s
            then \<exists>i<length items. currentIndex st' = int i \<and> src (items ! i) = s \<and>
                   (\<forall>j<i. src (items ! j) \<noteq> s)
            else currentIndex st' = 0)"
proof -
  from open_lightbox_index [OF assms, of s] obtain st' where st':
    "open_lightbox g s st = Inr st'"
    "currentIndex st' = (let idx = findIndex (\<lambda>it. src it = s) items in if idx < 0 then 0 else idx)"
    by blast
  show ?thesis
  proof (cases "\<exists>it\<in>set items. src it = s")
    case True
    from findIndex_from_first [of items "\<lambda>it. src it = s" 0, OF True]
    obtain i where "i < length items" "findIndex (\<lambda>it. src it = s) items = int i"
      "src (items ! i) = s" "\<forall>j<i. src (items ! j) \<noteq> s"
      by (auto simp: findIndex_def)
    with st' True show ?thesis by (auto simp: Let_def)
  next
    case False
    then have "findIndex (\<lambda>it. src it = s) items = - 1"
      by (simp add: findIndex_def findIndex_from_none)
    with st' False show ?thesis by (auto simp: Let_def)
  qed
qed

theorem open_index_resolution_witness:
  "groups vacation_loaded ''vacation'' = Some vacation_items \<and> vacation_items \<noteq> [] \<and>
   (\<exists>st'. open_lightbox ''vacation'' (Some ''/b.jpg'') vacation_loaded = Inr st' \<and>
          currentIndex st' = 1) \<and>
   (\<exists>st'. open_lightbox ''vacation'' (Some ''/zzz.jpg'') vacation_loaded = Inr st' \<and>
          currentIndex st' = 0)"
proof -
  have h1: "groups vacation_loaded ''vacation'' = Some vacation_items"
    by (simp add: example_defs)
  have h2: "vacation_items \<noteq> []" by (simp add: example_defs)
  show ?thesis
    using h1 h2 open_index_resolution [OF h1 h2, of "Some ''/b.jpg''"]
      open_index_resolution [OF h1 h2, of "Some ''/zzz.jpg''"]
    by (simp add: script_defs example_defs)
qed

text \<open>
  C3. Circular navigation. With the overlay built and a group of \<open>N \<ge> 1\<close> items
  current, \<open>showIndex(-1)\<close> leaves the index at \<open>N - 1\<close> and \<open>showIndex(N)\<close> at 0.
  When \<open>N = 1\<close>, previous (\<open>showIndex(current - 1)\<close>) and next
  (\<open>showIndex(current + 1)\<close>) both leave it at 0, set the inline display of the two
  navigation buttons to \<open>none\<close> and do not touch the close button, whose inline
  display is empty in every state a page reaches (\<open>close_button_display\<close>).
\<close>

theorem circular_navigation:
  assumes "overlay st = Some ov" and "currentGroup st = Some g"
    and "groups st g = Some items" and "items \<noteq> []"
  shows "(\<exists>st'. showIndex (- 1) st = Inr st' \<and> currentIndex st' = int (length items) - 1) \<and>
         (\<exists>st'. showIndex (int (length items)) st = Inr st' \<and> currentIndex st' = 0) \<and>
         (length items = 1 \<longrightarrow>
            (\<exists>st' ov'. showIndex (currentIndex st - 1) st = Inr st' \<and> currentIndex st' = 0 \<and>
               overlay st' = Some ov' \<and> prev_display ov' = ''none'' \<and>
               next_display ov' = ''none'' \<and> close_display ov' = close_display ov) \<and>
            (\<exists>st' ov'. showIndex (currentIndex st + 1) st = Inr st' \<and> currentIndex st' = 0 \<and>
               overlay st' = Some ov' \<and> prev_display ov' = ''none'' \<and>
               next_display ov' = ''none'' \<and> close_display ov' = close_display ov))"
proof -
  have items: "items_of st (currentGroup st) = items"
    using assms(2,3) by (simp add: items_of_def)
  note shown = showIndex_shown [OF items assms(4) assms(1)]
  have len: "0 < length items" using assms(4) by simp
  have last: "\<exists>st'. showIndex (- 1) st = Inr st' \<and> currentIndex st' = int (length items) - 1"
    using len by (simp add: shown Let_def)
  have first: "\<exists>st'. showIndex (int (length items)) st = Inr st' \<and> currentIndex st' = 0"
    by (simp add: shown Let_def)
  have single: "\<exists>st' ov'. showIndex i st = Inr st' \<and> currentIndex st' = 0 \<and>
       overlay st' = Some ov' \<and> prev_display ov' = ''none'' \<and> next_display ov' = ''none'' \<and>
       close_display ov' = close_display ov" if "length items = 1" for i
    using that by (simp add: shown Let_def)
  from last first single show ?thesis by blast
qed

theorem circular_navigation_witness:
  "overlay default_open = Some default_overlay \<and> currentGroup default_open = Some ''_default'' \<and>
   groups default_open ''_default'' = Some default_items \<and> default_items \<noteq> [] \<and>
   length default_items = 1 \<and>
   (\<exists>st'. showIndex (- 1) default_open = Inr st' \<and> currentIndex st' = 0) \<and>
   (\<exists>st'. showIndex 1 default_open = Inr st' \<and> currentIndex st' = 0) \<and>
   (\<exists>st' ov'. showIndex (currentIndex default_open - 1) default_open = Inr st' \<and>
      currentIndex st' = 0 \<and> overlay st' = Some ov' \<and> prev_display ov' = ''none'' \<and>
      next_display ov' = ''none'' \<and> close_display ov' = []) \<and>
   (\<exists>st' ov'. showIndex (currentIndex default_open + 1) default_open = Inr st' \<and>
      currentIndex st' = 0 \<and> overlay st' = Some ov' \<and> prev_display ov' = ''none'' \<and>
      next_display ov' = ''none'' \<and> close_display ov' = [])"
proof -
  have h1: "overlay default_open = Some default_overlay" by (simp add: example_defs)
  have h2: "currentGroup default_open = Some ''_default''" by (simp add: example_defs)
  have h3: "groups default_open ''_default'' = Some default_items" by (simp add: example_defs)
  have h4: "default_items \<noteq> []" by (simp add: example_defs)
  have h5: "length default_items = 1" by (simp add: example_defs)
  have h6: "close_display default_overlay = []" by (simp add: example_defs)
  show ?thesis
    using circular_navigation [OF h1 h2 h3 h4] h1 h2 h3 h4 h5 h6 by simp
qed

text \<open>
  C4. Opening a group without items. As the claim words it, nothing is displayed. The
  script does not do that: \<open>open\<close> marks the overlay visible and locks the scroll
  before it calls \<open>showIndex\<close>, and only \<open>showIndex\<close> looks at the number of items.
  Here the anchor of \<open>marked_page\<close> lost its \<^verbatim>\<open>data-lightbox\<close> before a refresh, so
  its group is gone and its first listener remains; a click then leaves an empty
  overlay open over a locked page.
\<close>

theorem open_empty_group_counterexample:
  "run [DOMContentLoaded marked_page, Refresh unmarked_page] init = Inr stale_listener \<and>
   items_of stale_listener (Some ''g'') = [] \<and>
   run [Click unmarked_page 2 primary] stale_listener =
     Inr \<lparr> groups = Map.empty, currentGroup = Some ''g'', currentIndex = - 1,
           overlay = Some \<lparr> is_open = True, img_src = NoSrc, img_alt = [], caption_text = [],
                            prev_display = [], next_display = [], close_display = [] \<rparr>,
           lock = True, listeners = [(2, ''g'', Some ''/a.jpg'')] \<rparr>"
  by (simp add: script_defs qsa_def a_data_lightbox_def matches_def getAttribute_def
      group_of_def item_of_def title_of_def js_or_def or_str_def img_alt_of_def
      querySelector_def descendants_def img_sel_def marked_page_def unmarked_page_def
      stale_listener_def)

text \<open>
  C4, amended. Calling \<open>open\<close> on a name with no items (an unknown name included)
  raises nothing and renders no item: \<open>showIndex\<close> is a no-op, so the current index
  (-1 when the lightbox was closed), the image, the caption and the buttons keep the
  values they had, and the table and the listeners are untouched. It still builds the
  overlay when there is none, records the name as the current group, marks the overlay
  visible and locks the scroll; every later \<open>showIndex\<close> is a no-op as well.
\<close>

theorem open_empty_group:
  assumes "items_of st (Some g) = []"
  shows "\<exists>st' ov. open_lightbox g s st = Inr st' \<and>
           overlay (buildOverlay st) = Some ov \<and>
           overlay st' = Some (ov \<lparr> is_open := True \<rparr>) \<and>
           currentIndex st' = currentIndex st \<and> currentGroup st' = Some g \<and> lock st' \<and>
           groups st' = groups st \<and> listeners st' = listeners st \<and>
           (\<forall>i. showIndex i st' = Inr st')"
proof -
  obtain ov where ov: "overlay (buildOverlay st) = Some ov"
    using overlay_buildOverlay by blast
  let ?st2 = "buildOverlay st \<lparr> currentGroup := Some g,
                 overlay := Some (ov \<lparr> is_open := True \<rparr>), lock := True \<rparr>"
  have empty: "items_of ?st2 (currentGroup ?st2) = []"
    using assms by (simp add: items_of_def frame_buildOverlay)
  have noop: "showIndex i ?st2 = Inr ?st2" for i
    by (rule showIndex_empty [OF empty])
  have "open_lightbox g s st = Inr ?st2"
    unfolding open_lightbox_unfold [OF ov] by (rule noop)
  with ov noop show ?thesis by (simp add: frame_buildOverlay)
qed

theorem open_empty_group_witness:
  "items_of vacation_closed (Some ''missing'') = [] \<and>
   (\<exists>st'. open_lightbox ''missing'' None vacation_closed = Inr st' \<and>
      overlay st' = Some \<lparr> is_open = True, img_src = SrcSet (Some ''/b.jpg''),
                            img_alt = ''Beach'', caption_text = ''Beach'', prev_display = [],
                            next_display = [], close_display = [] \<rparr> \<and>
      currentIndex st' = - 1 \<and> currentGroup st' = Some ''missing'' \<and> lock st' \<and>
      showIndex 0 st' = Inr st')"
proof -
  have h: "items_of vacation_closed (Some ''missing'') = []"
    by (simp add: items_of_def example_defs)
  show ?thesis
    using h open_empty_group [OF h, of None]
    by (auto simp: buildOverlay_def example_defs)
qed

text \<open>
  C5. An anchor without \<^verbatim>\<open>href\<close>. As the claim words it, the item carries the empty
  string as its source. The script stores what \<^verbatim>\<open>getAttribute\<close> returns, and that is
  \<^verbatim>\<open>null\<close>, not the empty string: the fourth anchor of \<open>vacation_page\<close>.
\<close>

theorem missing_href_counterexample:
  "getAttribute anchor_d ''href'' = None \<and>
   items_of (prepareGroups vacation_page init) (Some ''_default'') =
     [\<lparr> link = 5, src = None, title = ''pic'' \<rparr>] \<and>
   src (item_of anchor_d) \<noteq> Some []"
  by (simp add: items_of_def groups_prepareGroups page_defs)

text \<open>
  C5, amended. Every indexed anchor without \<^verbatim>\<open>href\<close> is in its group all the same,
  as an item whose source is \<^verbatim>\<open>null\<close>; it is neither skipped nor an error.
\<close>

theorem missing_href_indexed:
  assumes "a \<in> set (qsa a_data_lightbox doc)" and "getAttribute a ''href'' = None"
  shows "\<exists>items. groups (prepareGroups doc st) (group_of a) = Some items \<and>
           \<lparr> link = nid a, src = None, title = title_of a \<rparr> \<in> set items"
proof -
  let ?members = "filter (\<lambda>b. group_of b = group_of a) (qsa a_data_lightbox doc)"
  have mem: "a \<in> set ?members" using assms(1) by simp
  then have "?members \<noteq> []" by (metis empty_iff empty_set)
  then have "groups (prepareGroups doc st) (group_of a) = Some (map item_of ?members)"
    by (simp add: groups_prepareGroups Let_def)
  moreover have "item_of a \<in> set (map item_of ?members)"
    using mem by (rule imageI [of a "set ?members" item_of, folded set_map])
  moreover have "item_of a = \<lparr> link = nid a, src = None, title = title_of a \<rparr>"
    using assms(2) by (simp add: item_of_def)
  ultimately show ?thesis by simp
qed

theorem missing_href_indexed_witness:
  "anchor_d \<in> set (qsa a_data_lightbox vacation_page) \<and>
   getAttribute anchor_d ''href'' = None \<and>
   (\<exists>items. groups (prepareGroups vacation_page init) ''_default'' = Some items \<and>
      \<lparr> link = 5, src = None, title = ''pic'' \<rparr> \<in> set items)"
proof -
  have h1: "anchor_d \<in> set (qsa a_data_lightbox vacation_page)" by (simp add: page_defs)
  have h2: "getAttribute anchor_d ''href'' = None" by (simp add: page_defs)
  have g: "group_of anchor_d = ''_default''" "nid anchor_d = 5" "title_of anchor_d = ''pic''"
    by (simp_all add: page_defs)
  show ?thesis
    using h1 h2 missing_href_indexed [OF h1 h2, of init] by (simp add: g)
qed

text \<open>
  C6. Caption priority. As the claim words it, \<^verbatim>\<open>data-title\<close> is the caption whenever
  it is present. The script chains the candidates with \<^verbatim>\<open>||\<close>, which also passes over
  an attribute that is present and empty: an anchor with \<^verbatim>\<open>data-title=""\<close> and
  \<^verbatim>\<open>title="Sunset"\<close> gets the caption \<open>Sunset\<close>, where the first present candidate is
  the empty string.
\<close>

theorem caption_priority_counterexample:
  "getAttribute anchor_empty_title ''data-title'' = Some [] \<and>
   title (item_of anchor_empty_title) = ''Sunset'' \<and>
   first_present [getAttribute anchor_empty_title ''data-title'',
                  getAttribute anchor_empty_title ''title'',
                  img_alt_of anchor_empty_title] = []"
  by (simp add: anchor_empty_title_def getAttribute_def item_of_def title_of_def js_or_def
      or_str_def img_alt_of_def querySelector_def descendants_def)

text \<open>
  C6, amended. The caption of an anchor's item is the first candidate that is present
  and not empty, among \<^verbatim>\<open>data-title\<close>, \<^verbatim>\<open>title\<close> and the \<^verbatim>\<open>alt\<close> of the first image
  inside the anchor, and the empty string when there is none; so it is empty when no
  candidate is present. Rendering an item sets the caption text and the image's
  alternative text to its caption, the empty string in that case.
\<close>

theorem caption_resolution:
  "title (item_of a) =
     first_nonempty [getAttribute a ''data-title'', getAttribute a ''title'', img_alt_of a] \<and>
   (getAttribute a ''data-title'' = None \<and> getAttribute a ''title'' = None \<and>
    img_alt_of a = None \<longrightarrow> title (item_of a) = []) \<and>
   (overlay st = Some ov \<and> currentGroup st = Some g \<and> groups st g = Some items \<and>
    i < length items \<and> items ! i = item_of a \<longrightarrow>
      (\<exists>st' ov'. showIndex (int i) st = Inr st' \<and> overlay st' = Some ov' \<and>
         caption_text ov' = title (item_of a) \<and> img_alt ov' = title (item_of a)))"
proof -
  have priority: "title (item_of a) =
      first_nonempty [getAttribute a ''data-title'', getAttribute a ''title'', img_alt_of a]"
    by (simp add: item_of_def title_of_def js_or_def or_str_def split: option.splits)
  then have none: "getAttribute a ''data-title'' = None \<and> getAttribute a ''title'' = None \<and>
      img_alt_of a = None \<longrightarrow> title (item_of a) = []"
    by simp
  have render: "\<exists>st' ov'. showIndex (int i) st = Inr st' \<and> overlay st' = Some ov' \<and>
      caption_text ov' = title (item_of a) \<and> img_alt ov' = title (item_of a)"
    if "overlay st = Some ov" "currentGroup st = Some g" "groups st g = Some items"
      "i < length items" "items ! i = item_of a"
  proof -
    have items: "items_of st (currentGroup st) = items"
      using that(2,3) by (simp add: items_of_def)
    have ne: "items \<noteq> []" using that(4) by auto
    show ?thesis
      using that(4,5) by (simp add: showIndex_shown [OF items ne that(1)] Let_def)
  qed
  from priority none render show ?thesis by blast
qed

theorem caption_resolution_witness:
  "title (item_of anchor_b) = ''Beach'' \<and> title (item_of anchor_d) = ''pic'' \<and>
   title (item_of anchor_empty_title) = ''Sunset'' \<and>
   getAttribute anchor_a ''data-title'' = None \<and> getAttribute anchor_a ''title'' = None \<and>
   img_alt_of anchor_a = None \<and> title (item_of anchor_a) = [] \<and>
   overlay vacation_open \<noteq> None \<and> currentGroup vacation_open = Some ''vacation'' \<and>
   groups vacation_open ''vacation'' = Some vacation_items \<and>
   vacation_items ! 0 = item_of anchor_a \<and>
   (\<exists>st' ov'. showIndex 0 vacation_open = Inr st' \<and> overlay st' = Some ov' \<and>
      caption_text ov' = [] \<and> img_alt ov' = [])"
proof -
  have attrs: "getAttribute anchor_a ''data-title'' = None" "getAttribute anchor_a ''title'' = None"
      "img_alt_of anchor_a = None"
      "getAttribute anchor_b ''data-title'' = None" "getAttribute anchor_b ''title'' = Some ''Beach''"
      "getAttribute anchor_d ''data-title'' = None" "getAttribute anchor_d ''title'' = None"
      "img_alt_of anchor_d = Some ''pic''"
      "getAttribute anchor_empty_title ''data-title'' = Some []"
      "getAttribute anchor_empty_title ''title'' = Some ''Sunset''"
    by (simp_all add: page_defs anchor_empty_title_def)
  obtain ov where h1: "overlay vacation_open = Some ov" by (simp add: example_defs)
  have h2: "currentGroup vacation_open = Some ''vacation''" by (simp add: example_defs)
  have h3: "groups vacation_open ''vacation'' = Some vacation_items" by (simp add: example_defs)
  have h4: "0 < length vacation_items" by (simp add: example_defs)
  have h5: "vacation_items ! 0 = item_of anchor_a" by (simp add: example_defs page_defs)
  show ?thesis
    using caption_resolution [of anchor_a vacation_open ov "''vacation''" vacation_items 0]
      caption_resolution [of anchor_b vacation_open ov "''vacation''" vacation_items 0]
      caption_resolution [of anchor_d vacation_open ov "''vacation''" vacation_items 0]
      caption_resolution [of anchor_empty_title vacation_open ov "''vacation''" vacation_items 0]
      h1 h2 h3 h4 h5
    by (auto simp: attrs)
qed

text \<open>
  C7. Dismissal. \<open>hide\<close> runs from the listeners that \<open>buildOverlay\<close> adds, so on a
  built overlay. It returns, with the overlay no longer marked visible, the scroll lock
  released and the current index at -1; the table of groups, the name of the current
  group, the listeners and everything else about the overlay are as before.
\<close>

theorem hide_effect:
  assumes "overlay st = Some ov"
  shows "\<exists>st' ov'. hide st = Inr st' \<and> overlay st' = Some ov' \<and>
           \<not> is_open ov' \<and> \<not> lock st' \<and> currentIndex st' = - 1 \<and>
           groups st' = groups st \<and> currentGroup st' = currentGroup st \<and>
           listeners st' = listeners st \<and> ov' = ov \<lparr> is_open := False \<rparr>"
  using assms by (simp add: hide_def)

theorem hide_effect_witness:
  "overlay vacation_open \<noteq> None \<and> hide vacation_open = Inr vacation_closed \<and>
   currentIndex vacation_closed = - 1 \<and> \<not> lock vacation_closed \<and>
   groups vacation_closed = groups vacation_open \<and>
   currentGroup vacation_closed = Some ''vacation''"
proof -
  obtain ov where h: "overlay vacation_open = Some ov" by (simp add: example_defs)
  have "hide vacation_open = Inr vacation_closed" by (simp add: hide_def example_defs)
  with h hide_effect [OF h] show ?thesis by (auto simp: vacation_open_def)
qed

text \<open>
  C8. Keys after dismissal. The \<^verbatim>\<open>keydown\<close> listener tests the class \<^verbatim>\<open>is-open\<close> of
  the overlay and nothing else: on a closed overlay every key leaves the whole state
  as it is, whatever the current index, and on an open one the arrows call
  \<open>showIndex\<close>, whatever the current index. After \<open>hide\<close>, through any events that
  do not call \<open>open\<close> (refreshes, clicks on the overlay and its buttons, key presses,
  clicks the anchor listeners ignore) the overlay stays closed, and key presses
  arriving then, the arrows among them, change nothing; \<open>open\<close> is what makes the
  overlay open again.
\<close>

theorem keys_after_hide:
  "(overlay st = Some ov \<and> \<not> is_open ov \<longrightarrow> keydown key st = Inr st) \<and>
   (overlay st = Some ov \<and> is_open ov \<longrightarrow>
      keydown ''ArrowLeft'' st = showIndex (currentIndex st - 1) st \<and>
      keydown ''ArrowRight'' st = showIndex (currentIndex st + 1) st) \<and>
   (hide st = Inr st0 \<and> list_all quiet evs \<longrightarrow>
      (\<exists>st1 ov1. run evs st0 = Inr st1 \<and> overlay st1 = Some ov1 \<and> \<not> is_open ov1 \<and>
         run (map KeyDown keys) st1 = Inr st1)) \<and>
   (open_lightbox g s st = Inr st2 \<longrightarrow> (\<exists>ov2. overlay st2 = Some ov2 \<and> is_open ov2))"
proof -
  have closed: "keydown key st = Inr st" if "overlay st = Some ov" "\<not> is_open ov"
    using that by (rule keydown_closed)
  have opened: "keydown ''ArrowLeft'' st = showIndex (currentIndex st - 1) st \<and>
      keydown ''ArrowRight'' st = showIndex (currentIndex st + 1) st"
    if "overlay st = Some ov" "is_open ov"
    using that by (simp add: keydown_def bind_err_def split: sum.splits)
  have after: "\<exists>st1 ov1. run evs st0 = Inr st1 \<and> overlay st1 = Some ov1 \<and> \<not> is_open ov1 \<and>
      run (map KeyDown keys) st1 = Inr st1"
    if "hide st = Inr st0" "list_all quiet evs"
  proof -
    from that(1) obtain ov0 where "overlay st0 = Some ov0" "\<not> is_open ov0"
      by (auto simp: hide_def split: option.splits)
    from closed_run [OF this that(2)] obtain st1 ov1 where
      st1: "run evs st0 = Inr st1" "overlay st1 = Some ov1" "\<not> is_open ov1" by blast
    from run_keys_closed [OF st1(2,3)] st1 show ?thesis by blast
  qed
  have again: "\<exists>ov2. overlay st2 = Some ov2 \<and> is_open ov2" if "open_lightbox g s st = Inr st2"
    using that by (rule open_lightbox_is_open)
  from closed opened after again show ?thesis by blast
qed

theorem keys_after_hide_witness:
  "hide vacation_open = Inr vacation_closed \<and>
   list_all quiet [PrevClick, KeyDown ''ArrowRight'', Refresh unmarked_page] \<and>
   run [PrevClick] vacation_closed = Inr closed_after_prev \<and>
   currentIndex closed_after_prev = 2 \<and>
   keydown ''ArrowRight'' closed_after_prev = Inr closed_after_prev \<and>
   (\<exists>st1. run [PrevClick, KeyDown ''ArrowRight'', Refresh unmarked_page] vacation_closed = Inr st1 \<and>
      currentIndex st1 = 2 \<and>
      run (map KeyDown [''ArrowLeft'', ''ArrowRight'', ''Escape'']) st1 = Inr st1) \<and>
   keydown ''ArrowRight'' vacation_open = showIndex 2 vacation_open \<and>
   open_lightbox ''vacation'' (Some ''/b.jpg'') closed_after_prev = Inr vacation_open"
proof -
  have h: "hide vacation_open = Inr vacation_closed" by (simp add: hide_def example_defs)
  have q: "list_all quiet [PrevClick, KeyDown ''ArrowRight'', Refresh unmarked_page]" by simp
  have p': "prev_click vacation_closed = Inr closed_after_prev"
    by (simp add: script_defs or_str_def example_defs)
  have kd: "keydown ''ArrowRight'' closed_after_prev = Inr closed_after_prev"
    by (simp add: keydown_def example_defs)
  have p: "run [PrevClick] vacation_closed = Inr closed_after_prev"
    by (simp add: p' bind_err_def)
  have c: "overlay closed_after_prev \<noteq> None" "currentIndex closed_after_prev = 2"
    "\<not> is_open (the (overlay closed_after_prev))"
    by (simp_all add: example_defs)
  have o: "overlay vacation_open \<noteq> None" "is_open (the (overlay vacation_open))"
    "currentIndex vacation_open = 1"
    by (simp_all add: example_defs)
  have r: "open_lightbox ''vacation'' (Some ''/b.jpg'') closed_after_prev = Inr vacation_open"
    by (simp add: script_defs or_str_def example_defs)
  have k: "run [PrevClick, KeyDown ''ArrowRight'', Refresh unmarked_page] vacation_closed =
      Inr (prepareGroups unmarked_page closed_after_prev)"
    by (simp add: p' kd bind_err_def)
  have i: "currentIndex (prepareGroups unmarked_page closed_after_prev) = 2"
    by (simp add: frame_prepareGroups c)
  have "\<exists>st1 ov1. run [PrevClick, KeyDown ''ArrowRight'', Refresh unmarked_page] vacation_closed =
        Inr st1 \<and> overlay st1 = Some ov1 \<and> \<not> is_open ov1 \<and>
        run (map KeyDown [''ArrowLeft'', ''ArrowRight'', ''Escape'']) st1 = Inr st1"
    using keys_after_hide [where st = vacation_open and ?st0.0 = vacation_closed
        and evs = "[PrevClick, KeyDown ''ArrowRight'', Refresh unmarked_page]"
        and keys = "[''ArrowLeft'', ''ArrowRight'', ''Escape'']"] h q
    by blast
  then have after: "\<exists>st1. run [PrevClick, KeyDown ''ArrowRight'', Refresh unmarked_page]
        vacation_closed = Inr st1 \<and> currentIndex st1 = 2 \<and>
        run (map KeyDown [''ArrowLeft'', ''ArrowRight'', ''Escape'']) st1 = Inr st1"
    unfolding k using i by auto
  have closed: "keydown ''ArrowRight'' closed_after_prev = Inr closed_after_prev"
    using keys_after_hide [where st = closed_after_prev
        and ov = "the (overlay closed_after_prev)" and key = "''ArrowRight''"] c
    by auto
  have opened: "keydown ''ArrowRight'' vacation_open = showIndex 2 vacation_open"
    using keys_after_hide [where st = vacation_open and ov = "the (overlay vacation_open)"] o
    by auto
  from h q p c(2) closed after opened r show ?thesis by blast
qed

text \<open>
  C9. Refreshing twice. \<open>prepareGroups\<close> clears the table and rebuilds it from the
  markup alone, so a second call on the same markup gives the same table: the same
  names, and under each name the same sequence of items.
\<close>

theorem refresh_idempotent:
  "groups (prepareGroups doc (prepareGroups doc st)) = groups (prepareGroups doc st)"
  by (rule ext) (simp add: groups_prepareGroups)

theorem refresh_idempotent_witness:
  "groups (prepareGroups vacation_page (prepareGroups vacation_page init)) ''vacation'' =
     Some vacation_items \<and>
   groups (prepareGroups vacation_page init) ''vacation'' = Some vacation_items"
proof -
  have "groups (prepareGroups vacation_page init) ''vacation'' = Some vacation_items"
    by (simp add: groups_prepareGroups page_defs example_defs)
  with refresh_idempotent [of vacation_page init] show ?thesis by simp
qed

text \<open>
  C10. Listeners accumulate. As the claim words it, after \<open>k\<close> refreshes one click on
  an anchor calls \<open>open\<close> with the anchor's group and source \<open>k\<close> times. The
  listeners do accumulate, but the click also bubbles, and no listener stops it: the
  listeners of a marked anchor around the clicked one run as well. In \<open>twin_page\<close>,
  after a single refresh, one click on the inner anchor calls \<open>open\<close> with \<open>g\<close> and
  \<^verbatim>\<open>/a.jpg\<close> twice.
\<close>

theorem listeners_accumulate_counterexample:
  "listeners (prepareGroups twin_page init) =
     [(2, ''g'', Some ''/a.jpg''), (3, ''g'', Some ''/a.jpg'')] \<and>
   click twin_page 3 primary (prepareGroups twin_page init) =
     Inr (\<lparr> groups = [''g'' \<mapsto> [\<lparr> link = 2, src = Some ''/a.jpg'', title = [] \<rparr>,
                                \<lparr> link = 3, src = Some ''/a.jpg'', title = [] \<rparr>]],
            currentGroup = Some ''g'', currentIndex = 0,
            overlay = Some \<lparr> is_open = True, img_src = SrcSet (Some ''/a.jpg''), img_alt = [],
                             caption_text = [], prev_display = [], next_display = [],
                             close_display = [] \<rparr>,
            lock = True,
            listeners = [(2, ''g'', Some ''/a.jpg''), (3, ''g'', Some ''/a.jpg'')] \<rparr>,
          [(''g'', Some ''/a.jpg''), (''g'', Some ''/a.jpg'')])"
  by (simp add: script_defs qsa_def a_data_lightbox_def matches_def getAttribute_def
      group_of_def item_of_def title_of_def js_or_def or_str_def img_alt_of_def
      querySelector_def descendants_def img_sel_def twin_page_def)

text \<open>
  C10, amended. Each \<open>prepareGroups\<close> adds one click listener to every anchor it
  indexes and removes none. On a page whose elements are distinct objects, with no
  listener yet on the way from an indexed anchor up to the root, after \<open>k\<close> refreshes
  of the same markup the anchor carries \<open>k\<close> listeners with its group and source, and
  one unmodified click of the primary button on it calls \<open>open\<close> with that group and
  source \<open>k\<close> times through them; the click then bubbles, so for each marked anchor
  around it, innermost first, \<open>open\<close> is called \<open>k\<close> more times with that anchor's
  group and source. These are all the calls: an anchor inside no other marked anchor
  gets exactly \<open>k\<close>.
\<close>

theorem listeners_accumulate:
  assumes "a \<in> set (qsa a_data_lightbox doc)"
    and "distinct (map nid (subtree doc))"
    and "\<forall>l\<in>set (listeners st). fst l \<notin> nid ` set (bubble_path (nid a) doc)"
    and "button e = 0" "\<not> metaKey e" "\<not> ctrlKey e" "\<not> shiftKey e" "\<not> altKey e"
  shows "filter (\<lambda>l. fst l = nid a) (listeners ((prepareGroups doc ^^ k) st)) =
           replicate k (nid a, group_of a, getAttribute a ''href'') \<and>
         hd (bubble_path (nid a) doc) = a \<and>
         (\<exists>st'. click doc (nid a) e ((prepareGroups doc ^^ k) st) =
            Inr (st', replicate k (group_of a, getAttribute a ''href'') @
                      concat (map (\<lambda>b. replicate k (group_of b, getAttribute b ''href''))
                                (filter (matches a_data_lightbox)
                                   (tl (bubble_path (nid a) doc))))))"
proof -
  from assms(1) have a: "a \<in> set (subtree doc)" "matches a_data_lightbox a"
    by (simp_all add: qsa_def)
  from bubble_path_of_element [OF a(1) assms(2)] obtain ancs where
    path: "bubble_path (nid a) doc = a # ancs" by blast
  with assms(3) have "\<forall>l\<in>set (listeners st). fst l \<noteq> nid a" by auto
  from listeners_after_refreshes [OF assms(2) a(1) this, of k] a(2)
  have own: "filter (\<lambda>l. fst l = nid a) (listeners ((prepareGroups doc ^^ k) st)) =
      replicate k (nid a, group_of a, getAttribute a ''href'')"
    by simp
  from click_calls [OF assms(2-8), of k] obtain st' where
    "click doc (nid a) e ((prepareGroups doc ^^ k) st) =
       Inr (st', concat (map (\<lambda>b. replicate k (group_of b, getAttribute b ''href''))
                           (filter (matches a_data_lightbox) (bubble_path (nid a) doc))))"
    by blast
  with path a(2) have "click doc (nid a) e ((prepareGroups doc ^^ k) st) =
      Inr (st', replicate k (group_of a, getAttribute a ''href'') @
                concat (map (\<lambda>b. replicate k (group_of b, getAttribute b ''href''))
                          (filter (matches a_data_lightbox) (tl (bubble_path (nid a) doc)))))"
    by simp
  with own path show ?thesis by auto
qed

theorem listeners_accumulate_witness:
  "anchor_b \<in> set (qsa a_data_lightbox vacation_page) \<and>
   distinct (map nid (subtree vacation_page)) \<and>
   filter (\<lambda>l. fst l = 3) (listeners ((prepareGroups vacation_page ^^ 2) init)) =
     [(3, ''vacation'', Some ''/b.jpg''), (3, ''vacation'', Some ''/b.jpg'')] \<and>
   (\<exists>st'. click vacation_page 3 primary ((prepareGroups vacation_page ^^ 2) init) =
      Inr (st', [(''vacation'', Some ''/b.jpg''), (''vacation'', Some ''/b.jpg'')])) \<and>
   inner_anchor \<in> set (qsa a_data_lightbox nested_page) \<and>
   distinct (map nid (subtree nested_page)) \<and>
   (\<exists>st'. click nested_page 3 primary ((prepareGroups nested_page ^^ 2) init) =
      Inr (st', [(''inner'', Some ''/i.jpg''), (''inner'', Some ''/i.jpg''),
                 (''outer'', Some ''/o.jpg''), (''outer'', Some ''/o.jpg'')]))"
proof -
  have e: "button primary = 0" "\<not> metaKey primary" "\<not> ctrlKey primary" "\<not> shiftKey primary"
      "\<not> altKey primary"
    by (simp_all add: primary_def)
  have v1: "anchor_b \<in> set (qsa a_data_lightbox vacation_page)" by (simp add: page_defs)
  have v2: "distinct (map nid (subtree vacation_page))" by (simp add: page_defs)
  have v3: "\<forall>l\<in>set (listeners init). fst l \<notin> nid ` set (bubble_path (nid anchor_b) vacation_page)"
    by (simp add: init_def)
  have vb: "nid anchor_b = 3" "group_of anchor_b = ''vacation''"
      "getAttribute anchor_b ''href'' = Some ''/b.jpg''"
      "filter (matches a_data_lightbox) (tl (bubble_path 3 vacation_page)) = []"
    by (simp_all add: page_defs)
  have n1: "inner_anchor \<in> set (qsa a_data_lightbox nested_page)"
    by (simp add: nested_page_def inner_anchor_def qsa_def a_data_lightbox_def matches_def
        getAttribute_def)
  have n2: "distinct (map nid (subtree nested_page))"
    by (simp add: nested_page_def inner_anchor_def)
  have n3: "\<forall>l\<in>set (listeners init). fst l \<notin> nid ` set (bubble_path (nid inner_anchor) nested_page)"
    by (simp add: init_def)
  have nb: "nid inner_anchor = 3" "group_of inner_anchor = ''inner''"
      "getAttribute inner_anchor ''href'' = Some ''/i.jpg''"
      "map (\<lambda>b. (group_of b, getAttribute b ''href''))
         (filter (matches a_data_lightbox) (tl (bubble_path 3 nested_page))) =
       [(''outer'', Some ''/o.jpg'')]"
    by (simp_all add: nested_page_def inner_anchor_def a_data_lightbox_def matches_def
        getAttribute_def group_of_def or_str_def)
  have outer: "concat (map (\<lambda>b. replicate 2 (group_of b, getAttribute b ''href''))
         (filter (matches a_data_lightbox) (tl (bubble_path 3 nested_page)))) =
       [(''outer'', Some ''/o.jpg''), (''outer'', Some ''/o.jpg'')]"
    using nb(4) by (auto simp: replicate_two map_eq_Cons_conv)
  from listeners_accumulate [OF v1 v2 v3 e, of 2]
  have v: "filter (\<lambda>l. fst l = 3) (listeners ((prepareGroups vacation_page ^^ 2) init)) =
       [(3, ''vacation'', Some ''/b.jpg''), (3, ''vacation'', Some ''/b.jpg'')] \<and>
     (\<exists>st'. click vacation_page 3 primary ((prepareGroups vacation_page ^^ 2) init) =
        Inr (st', [(''vacation'', Some ''/b.jpg''), (''vacation'', Some ''/b.jpg'')]))"
    by (simp add: vb replicate_two)
  from listeners_accumulate [OF n1 n2 n3 e, of 2]
  have n: "\<exists>st'. click nested_page 3 primary ((prepareGroups nested_page ^^ 2) init) =
      Inr (st', [(''inner'', Some ''/i.jpg''), (''inner'', Some ''/i.jpg''),
                 (''outer'', Some ''/o.jpg''), (''outer'', Some ''/o.jpg'')])"
    by (simp add: nb(1-3) outer [unfolded replicate_two] replicate_two)
  from v1 v2 v n1 n2 n show ?thesis by blast
qed

end
